theory Spec2Isabelle
  imports
    Main
    "HOL-Library.Multiset"
    "HOL-Library.Char_ord"
    "HOL-Library.List_Lexorder"
    "HOL-Library.Product_Lexorder"
begin

section \<open>The Fortran dependency scanner of SCons (SCons.Scanner.Fortran)\<close>

text \<open>
  The development embeds \<^verbatim>\<open>src/engine/SCons/Scanner/Fortran.py\<close>: the regular
  expression \<^verbatim>\<open>include_re\<close>, its \<^verbatim>\<open>findall\<close>, the function \<^verbatim>\<open>scan\<close> with the
  caches it keeps on the node and on the target, and the Schwartzian transform \<^verbatim>\<open>st\<close>
  that orders the result.
\<close>

subsection \<open>The regular expression \<^verbatim>\<open>include_re\<close>\<close>

text \<open>
  \<^verbatim>\<open>include_re = re.compile("INCLUDE[ \t]+'([\\w./\\\\]+)'", re.M)\<close>

  The pattern is the literal word INCLUDE in upper case, one or more blanks or tabs, a
  single quote, one or more characters of the class \<^verbatim>\<open>[\w./\\]\<close> (the group), and a
  single quote. The contents are a Python 2 byte string and the pattern carries neither
  the LOCALE nor the UNICODE flag, so \<^verbatim>\<open>\w\<close> is \<^verbatim>\<open>[a-zA-Z0-9_]\<close>.
\<close>

definition is_blank :: "char \<Rightarrow> bool" where
  "is_blank c = (c = CHR '' '' \<or> c = CHR 0x09)"

definition is_word :: "char \<Rightarrow> bool" where
  "is_word c =
     (let n = (of_char c :: nat)
      in (48 \<le> n \<and> n \<le> 57) \<or> (65 \<le> n \<and> n \<le> 90) \<or> n = 95 \<or> (97 \<le> n \<and> n \<le> 122))"

definition is_name_char :: "char \<Rightarrow> bool" where
  "is_name_char c = (is_word c \<or> c = CHR ''.'' \<or> c = CHR ''/'' \<or> c = CHR 0x5C)"

fun strip_prefix :: "string \<Rightarrow> string \<Rightarrow> string option" where
  "strip_prefix [] s = Some s"
| "strip_prefix (p # ps) [] = None"
| "strip_prefix (p # ps) (c # cs) = (if p = c then strip_prefix ps cs else None)"

text \<open>
  \<open>match_at s\<close> is the match of the pattern anchored at the start of \<open>s\<close>: the group and
  the text after the match. Both repetitions are greedy, and the character that must
  follow each (a quote) is outside the repeated class, so backtracking into a repetition
  never finds a match the greedy run missed: the match is the one computed here.
\<close>

definition match_at :: "string \<Rightarrow> (string \<times> string) option" where
  "match_at s =
     (case strip_prefix ''INCLUDE'' s of
        None \<Rightarrow> None
      | Some r1 \<Rightarrow>
          if takeWhile is_blank r1 = [] then None
          else (case dropWhile is_blank r1 of
                  [] \<Rightarrow> None
                | q # r2 \<Rightarrow>
                    if q \<noteq> CHR 0x27 then None
                    else if takeWhile is_name_char r2 = [] then None
                    else (case dropWhile is_name_char r2 of
                            [] \<Rightarrow> None
                          | q' # r3 \<Rightarrow>
                              if q' \<noteq> CHR 0x27 then None
                              else Some (takeWhile is_name_char r2, r3))))"

lemma strip_prefix_length:
  "strip_prefix p s = Some r \<Longrightarrow> length s = length p + length r"
  by (induction p s rule: strip_prefix.induct) (auto split: if_splits)

lemma length_dropWhile_Cons:
  "dropWhile P xs = y # ys \<Longrightarrow> length ys < length xs"
proof -
  assume h: "dropWhile P xs = y # ys"
  have "length (dropWhile P xs) \<le> length xs"
    by (rule length_dropWhile_le)
  with h show ?thesis by simp
qed

lemma match_at_shorter:
  assumes "match_at s = Some (g, r)"
  shows "length r < length s"
proof -
  from assms obtain r1 q r2 q' where
    a: "strip_prefix ''INCLUDE'' s = Some r1" and
    b: "dropWhile is_blank r1 = q # r2" and
    c: "dropWhile is_name_char r2 = q' # r"
    by (auto simp: match_at_def split: option.splits list.splits if_splits)
  from a have "length r1 \<le> length s"
    by (auto dest: strip_prefix_length)
  moreover from b have "length r2 < length r1"
    by (rule length_dropWhile_Cons)
  moreover from c have "length r < length r2"
    by (rule length_dropWhile_Cons)
  ultimately show ?thesis by simp
qed

text \<open>
  \<^verbatim>\<open>include_re.findall(contents)\<close>: the groups of the non-overlapping matches, scanning
  from left to right; after a match the scan goes on behind it, otherwise one character
  further.
\<close>

function findall :: "string \<Rightarrow> string list" where
  "findall [] = []"
| "findall (c # cs) =
     (case match_at (c # cs) of
        Some (g, r) \<Rightarrow> g # findall r
      | None \<Rightarrow> findall cs)"
  by pat_completeness auto
termination
  by (relation "measure length") (auto dest: match_at_shorter)

text \<open>
  The text of an INCLUDE line of the form the pattern describes: the word in upper case,
  a non-empty run \<open>ws\<close> of blanks and tabs, and the non-empty \<open>name\<close>, made of characters
  of the class, between single quotes.
\<close>

definition directive :: "string \<Rightarrow> string \<Rightarrow> string" where
  "directive ws name = ''INCLUDE'' @ ws @ [CHR 0x27] @ name @ [CHR 0x27]"

definition well_formed :: "string \<Rightarrow> string \<Rightarrow> bool" where
  "well_formed ws name =
     (ws \<noteq> [] \<and> list_all is_blank ws \<and> name \<noteq> [] \<and> list_all is_name_char name)"

subsection \<open>Nodes, collaborators and the caches\<close>

text \<open>
  A node is identified by its path, which is also what \<^verbatim>\<open>str(node)\<close> returns; directory
  nodes and targets likewise. Python 2 compares byte strings lexicographically, which is
  the order of \<open>string\<close> here.
\<close>

type_synonym node = string
type_synonym dirnode = string
type_synonym target = string
type_synonym env = "string \<rightharpoonup> string list"

datatype error = KeyError | IOError

datatype warning = DependencyWarning string

text \<open>
  The file system and the utilities \<^verbatim>\<open>scan\<close> calls live in \<^verbatim>\<open>SCons.Node.FS\<close> and
  \<^verbatim>\<open>SCons.Util\<close>, outside this module; they are parameters of the model, one field for
  each call the module makes. Reading the contents of a file can fail.
\<close>

record world =
  rfile :: "node \<Rightarrow> node"
  rexists :: "node \<Rightarrow> bool"
  get_contents :: "node \<Rightarrow> error + string"
  get_dir :: "node \<Rightarrow> dirnode"
  File :: "string \<Rightarrow> dirnode \<Rightarrow> node"
  exists_file :: "node \<Rightarrow> bool"
  cwd :: "target \<Rightarrow> dirnode"
  mapPaths :: "string list \<Rightarrow> dirnode \<Rightarrow> string list"
  Rsearchall :: "string list \<Rightarrow> dirnode list"
  my_normcase :: "string \<Rightarrow> string"

text \<open>
  The attributes the function caches on its arguments: \<^verbatim>\<open>target.f77path\<close> (absent until
  the first scan for the target), \<^verbatim>\<open>node.includes\<close> (\<open>None\<close> until computed),
  \<^verbatim>\<open>node.found_includes\<close> (a dictionary keyed by the tuple of search directories), and
  the warnings issued so far.
\<close>

record scan_state =
  target_f77path :: "target \<rightharpoonup> dirnode list"
  node_includes :: "node \<rightharpoonup> string list"
  node_found_includes :: "node \<Rightarrow> (dirnode list \<rightharpoonup> node list)"
  warnings :: "warning list"

definition getitem :: "('k \<rightharpoonup> 'v) \<Rightarrow> 'k \<Rightarrow> error + 'v" where
  "getitem d k = (case d k of None \<Rightarrow> Inl KeyError | Some v \<Rightarrow> Inr v)"

text \<open>
  Modelled from the spec: \<^verbatim>\<open>SCons.Node.FS.find_file\<close> is not part of this module. The
  Path Resolver of the specification, given a name and an ordered list of candidate
  directories, returns the first existing match and "not found" when there is none.
\<close>

fun find_file :: "world \<Rightarrow> string \<Rightarrow> dirnode list \<Rightarrow> node option" where
  "find_file w filename [] = None"
| "find_file w filename (d # ds) =
     (if exists_file w (File w filename d) then Some (File w filename d)
      else find_file w filename ds)"

subsection \<open>The Schwartzian transform\<close>

text \<open>
  \<^verbatim>\<open>st(List, Metric)\<close> pairs every element with its metric, sorts the pairs (Python
  compares tuples lexicographically: the metric first, the element on a tie) and strips
  the metric again.
\<close>

definition pairing :: "('a \<Rightarrow> 'k) \<Rightarrow> 'a \<Rightarrow> 'k \<times> 'a" where
  "pairing M element = (M element, element)"

definition stripit :: "'k \<times> 'a \<Rightarrow> 'a" where
  "stripit pair = snd pair"

definition st :: "('a::linorder) list \<Rightarrow> ('a \<Rightarrow> ('k::linorder)) \<Rightarrow> 'a list" where
  "st List Metric = map stripit (sort (map (pairing Metric) List))"

definition normalize :: "world \<Rightarrow> node \<Rightarrow> string" where
  "normalize w n = my_normcase w n"

text \<open>
  Modelled from the spec: \<^verbatim>\<open>SCons.Node.FS._my_normcase\<close> is not part of this module. The
  specification orders the result by a normalised key, the case-folded,
  separator-normalised path string: upper-case letters become lower-case and a backslash
  becomes a slash. \<open>folding_world\<close> is the mock file system whose \<^verbatim>\<open>_my_normcase\<close> is
  this function.
\<close>

definition fold_char :: "char \<Rightarrow> char" where
  "fold_char c =
     (let n = (of_char c :: nat)
      in if 65 \<le> n \<and> n \<le> 90 then char_of (n + 32)
         else if c = CHR 0x5C then CHR ''/'' else c)"

definition case_folded :: "string \<Rightarrow> string" where
  "case_folded p = map fold_char p"

subsection \<open>The function \<^verbatim>\<open>scan\<close>\<close>

definition warning_message :: "string \<Rightarrow> node \<Rightarrow> string" where
  "warning_message include n =
     ''No dependency generated for file: '' @ include @ '' (included from: '' @ n @
     '') -- file not found''"

text \<open>
  The first block of \<^verbatim>\<open>scan\<close>: unless the target already has the attribute, compute
  \<^verbatim>\<open>target.f77path\<close> from \<^verbatim>\<open>env['F77PATH']\<close>; a \<^verbatim>\<open>KeyError\<close> makes it the empty
  tuple, any other error leaves the function.
\<close>

definition set_f77path :: "world \<Rightarrow> scan_state \<Rightarrow> env \<Rightarrow> target \<Rightarrow> (error + unit) \<times> scan_state" where
  "set_f77path w s env target =
     (if target_f77path s target = None then
        (case getitem env ''F77PATH'' of
           Inr v \<Rightarrow>
             (Inr (), s\<lparr>target_f77path :=
                (target_f77path s)(target \<mapsto> Rsearchall w (mapPaths w v (cwd w target)))\<rparr>)
         | Inl e \<Rightarrow>
             if e = KeyError
             then (Inr (), s\<lparr>target_f77path := (target_f77path s)(target \<mapsto> [])\<rparr>)
             else (Inl e, s))
      else (Inr (), s))"

text \<open>
  The raw references of a node: the cached list when \<^verbatim>\<open>node.includes\<close> is not
  \<^verbatim>\<open>None\<close>, otherwise the matches of \<^verbatim>\<open>include_re\<close> in the contents, which are then
  cached.
\<close>

definition get_includes :: "world \<Rightarrow> scan_state \<Rightarrow> node \<Rightarrow> (error + string list) \<times> scan_state" where
  "get_includes w s n =
     (case node_includes s n of
        Some includes \<Rightarrow> (Inr includes, s)
      | None \<Rightarrow>
          (case get_contents w n of
             Inl e \<Rightarrow> (Inl e, s)
           | Inr contents \<Rightarrow>
               (Inr (findall contents),
                s\<lparr>node_includes := (node_includes s)(n \<mapsto> findall contents)\<rparr>)))"

text \<open>
  The loop over the raw references: a reference that \<^verbatim>\<open>find_file\<close> resolves is appended
  to \<^verbatim>\<open>nodes\<close>, one that it does not resolve issues a warning.
\<close>

fun resolve_loop ::
  "world \<Rightarrow> node \<Rightarrow> dirnode list \<Rightarrow> string list \<Rightarrow> node list \<times> warning list \<Rightarrow>
   node list \<times> warning list" where
  "resolve_loop w n dirs [] acc = acc"
| "resolve_loop w n dirs (include # rest) (nodes, warns) =
     (case find_file w include dirs of
        Some f \<Rightarrow> resolve_loop w n dirs rest (nodes @ [f], warns)
      | None \<Rightarrow>
          resolve_loop w n dirs rest
            (nodes, warns @ [DependencyWarning (warning_message include n)]))"

definition store_found ::
  "scan_state \<Rightarrow> node \<Rightarrow> dirnode list \<Rightarrow> node list \<Rightarrow> scan_state" where
  "store_found s n f77path nodes =
     s\<lparr>node_found_includes :=
         (node_found_includes s)(n := (node_found_includes s n)(f77path \<mapsto> nodes))\<rparr>"

text \<open>
  The body of \<^verbatim>\<open>scan(node, env, target, fs)\<close>. After the first block the function reads
  \<^verbatim>\<open>target.f77path\<close> (the attribute is set by then, so the failing branch of this lookup
  is never taken) and replaces the node by \<^verbatim>\<open>node.rfile()\<close>. A list found under
  \<^verbatim>\<open>node.found_includes[f77path]\<close> is the result; on \<^verbatim>\<open>KeyError\<close> the references of an
  existing node are resolved against \<^verbatim>\<open>(source_dir,) + f77path\<close>, and the list \<^verbatim>\<open>nodes\<close>,
  empty for a node that does not exist, is stored under \<^verbatim>\<open>f77path\<close>. An error raised by
  reading the contents leaves the function before anything is stored. The result is
  \<^verbatim>\<open>st(nodes, normalize)\<close>.
\<close>

definition scan ::
  "world \<Rightarrow> scan_state \<Rightarrow> node \<Rightarrow> env \<Rightarrow> target \<Rightarrow> (error + node list) \<times> scan_state" where
  "scan w s node0 env target =
     (case set_f77path w s env target of
        (Inl e, s1) \<Rightarrow> (Inl e, s1)
      | (Inr _, s1) \<Rightarrow>
          (case getitem (target_f77path s1) target of
             Inl e \<Rightarrow> (Inl e, s1)
           | Inr f77path \<Rightarrow>
               (let n = rfile w node0 in
                case getitem (node_found_includes s1 n) f77path of
                  Inr nodes \<Rightarrow> (Inr (st nodes (normalize w)), s1)
                | Inl e \<Rightarrow>
                    if e \<noteq> KeyError then (Inl e, s1)
                    else if rexists w n then
                      (case get_includes w s1 n of
                         (Inl e', s2) \<Rightarrow> (Inl e', s2)
                       | (Inr includes, s2) \<Rightarrow>
                           (let source_dir = get_dir w n;
                                (nodes, warns) =
                                  resolve_loop w n (source_dir # f77path) includes
                                    ([], warnings s2);
                                s3 = s2\<lparr>warnings := warns\<rparr>
                            in (Inr (st nodes (normalize w)),
                                store_found s3 n f77path nodes)))
                    else (Inr (st [] (normalize w)), store_found s1 n f77path []))))"

subsection \<open>The recursive scan\<close>

text \<open>
  Modelled from the spec: the class \<^verbatim>\<open>SCons.Scanner.Recursive\<close>, with which \<^verbatim>\<open>FortranScan\<close>
  wraps \<^verbatim>\<open>scan\<close>, is not part of this module. The Recursive Scan Driver of the
  specification recurses into each resolved node with the same search path and
  accumulates the closure; it tracks the nodes it is currently visiting and, on a
  revisit, stops along that path without raising an error; at the end it removes
  repetitions and orders the result by the normalised key. An error of a scan ends the
  request with that error. The depth of the recursion is bounded by the fuel: the result
  \<open>None\<close> means that the fuel ran out.
\<close>

fun visit ::
  "nat \<Rightarrow> world \<Rightarrow> env \<Rightarrow> target \<Rightarrow> node list \<Rightarrow> scan_state \<Rightarrow> node \<Rightarrow>
   ((error + node list) \<times> scan_state) option"
and visit_all ::
  "nat \<Rightarrow> world \<Rightarrow> env \<Rightarrow> target \<Rightarrow> node list \<Rightarrow> scan_state \<Rightarrow> node list \<Rightarrow>
   ((error + node list) \<times> scan_state) option" where
  "visit 0 w env t visiting s n = None"
| "visit (Suc k) w env t visiting s n =
     (if n \<in> set visiting then Some (Inr [], s)
      else (case scan w s n env t of
              (Inl e, s1) \<Rightarrow> Some (Inl e, s1)
            | (Inr ds, s1) \<Rightarrow>
                (case visit_all k w env t (n # visiting) s1 ds of
                   None \<Rightarrow> None
                 | Some (Inl e, s2) \<Rightarrow> Some (Inl e, s2)
                 | Some (Inr sub, s2) \<Rightarrow> Some (Inr (ds @ sub), s2))))"
| "visit_all k w env t visiting s [] = Some (Inr [], s)"
| "visit_all k w env t visiting s (d # ds) =
     (case visit k w env t visiting s d of
        None \<Rightarrow> None
      | Some (Inl e, s1) \<Rightarrow> Some (Inl e, s1)
      | Some (Inr r1, s1) \<Rightarrow>
          (case visit_all k w env t visiting s1 ds of
             None \<Rightarrow> None
           | Some (Inl e, s2) \<Rightarrow> Some (Inl e, s2)
           | Some (Inr r2, s2) \<Rightarrow> Some (Inr (r1 @ r2), s2)))"

definition implicit_dependencies ::
  "nat \<Rightarrow> world \<Rightarrow> scan_state \<Rightarrow> node \<Rightarrow> env \<Rightarrow> target \<Rightarrow>
   ((error + node list) \<times> scan_state) option" where
  "implicit_dependencies fuel w s n env t =
     (case visit fuel w env t [] s n of
        None \<Rightarrow> None
      | Some (Inl e, s') \<Rightarrow> Some (Inl e, s')
      | Some (Inr acc, s') \<Rightarrow> Some (Inr (st (remdups acc) (normalize w)), s'))"

subsection \<open>Notions used to state the properties\<close>

text \<open>
  The search path a scan uses for a target: the cached \<^verbatim>\<open>target.f77path\<close> when the
  attribute is there, otherwise what the first block of \<^verbatim>\<open>scan\<close> computes from the
  environment. \<open>with_path\<close> is the state after that block.
\<close>

definition search_path :: "world \<Rightarrow> scan_state \<Rightarrow> env \<Rightarrow> target \<Rightarrow> dirnode list" where
  "search_path w s env t =
     (case target_f77path s t of
        Some p \<Rightarrow> p
      | None \<Rightarrow> (case env ''F77PATH'' of
                   Some v \<Rightarrow> Rsearchall w (mapPaths w v (cwd w t))
                 | None \<Rightarrow> []))"

definition with_path :: "world \<Rightarrow> scan_state \<Rightarrow> env \<Rightarrow> target \<Rightarrow> scan_state" where
  "with_path w s env t =
     s\<lparr>target_f77path := (target_f77path s)(t \<mapsto> search_path w s env t)\<rparr>"

text \<open>
  The nodes the loop appends for a list of raw references, and the references it warns
  about, both in the order of the references.
\<close>

definition resolved :: "world \<Rightarrow> dirnode list \<Rightarrow> string list \<Rightarrow> node list" where
  "resolved w dirs incs = List.map_filter (\<lambda>i. find_file w i dirs) incs"

definition unresolved :: "world \<Rightarrow> dirnode list \<Rightarrow> string list \<Rightarrow> string list" where
  "unresolved w dirs incs = filter (\<lambda>i. find_file w i dirs = None) incs"

text \<open>
  Two states give the same results when every node scans to the same outcome in both, for
  a fixed environment and target.
\<close>


definition same_results :: "world \<Rightarrow> env \<Rightarrow> target \<Rightarrow> scan_state \<Rightarrow> scan_state \<Rightarrow> bool" where
  "same_results w env t s0 s = (\<forall>n. fst (scan w s n env t) = fst (scan w s0 n env t))"

subsection \<open>A mock file system\<close>

text \<open>
  A file system given by a list of paths with their contents, without repositories
  (\<^verbatim>\<open>rfile\<close> is the identity), with a case-sensitive \<^verbatim>\<open>_my_normcase\<close>, and with search
  directories named by their paths. The examples below run the scanner on it.
\<close>

definition dirname :: "string \<Rightarrow> string" where
  "dirname p =
     (if CHR ''/'' \<in> set p then rev (tl (dropWhile (\<lambda>c. c \<noteq> CHR ''/'') (rev p)))
      else ''.'')"

definition mock_world :: "(node \<times> string) list \<Rightarrow> world" where
  "mock_world files =
     \<lparr>rfile = (\<lambda>n. n),
      rexists = (\<lambda>n. map_of files n \<noteq> None),
      get_contents = (\<lambda>n. case map_of files n of Some c \<Rightarrow> Inr c | None \<Rightarrow> Inl IOError),
      get_dir = dirname,
      File = (\<lambda>name d. d @ ''/'' @ name),
      exists_file = (\<lambda>n. map_of files n \<noteq> None),
      cwd = dirname,
      mapPaths = (\<lambda>v d. v),
      Rsearchall = (\<lambda>ps. ps),
      my_normcase = (\<lambda>x. x)\<rparr>"

definition folding_world :: "(node \<times> string) list \<Rightarrow> world" where
  "folding_world files = (mock_world files)\<lparr>my_normcase := case_folded\<rparr>"

definition files_case :: "(node \<times> string) list" where
  "files_case =
     [(''src/main.f'', ''      INCLUDE 'B.inc' INCLUDE 'a.inc' ''),
      (''src/B.inc'', ''''), (''src/a.inc'', '''')]"


text \<open>The state of nodes and targets no scan has touched yet.\<close>

definition fresh_state :: scan_state where
  "fresh_state =
     \<lparr>target_f77path = Map.empty, node_includes = Map.empty,
      node_found_includes = (\<lambda>_. Map.empty), warnings = []\<rparr>"

definition files_main :: "(node \<times> string) list" where
  "files_main =
     [(''src/main.f'', ''      INCLUDE 'b.inc' INCLUDE 'a.inc' INCLUDE 'b.inc' INCLUDE 'c.inc' ''),
      (''src/a.inc'', ''''), (''src/b.inc'', ''''), (''inc/b.inc'', '''')]"

definition files_lower :: "(node \<times> string) list" where
  "files_lower = [(''src/main.f'', ''      include 'foo.inc' ''), (''src/foo.inc'', '''')]"

text \<open>Environments and file lists of the examples.\<close>

definition env_inc :: env where
  "env_inc = [''F77PATH'' \<mapsto> [''inc'']]"

definition env_lib :: env where
  "env_lib = [''F77PATH'' \<mapsto> [''lib'']]"





definition files_two :: "(node \<times> string) list" where
  "files_two = [(''src/main.f'', ''      INCLUDE 'a.inc' ''), (''src/other.f'', ''      INCLUDE 'x.inc' ''),
                (''src/a.inc'', ''''), (''inc/x.inc'', '''')]"

definition files_cycle :: "(node \<times> string) list" where
  "files_cycle = [(''src/a.f'', ''      INCLUDE 'b.f' ''), (''src/b.f'', ''      INCLUDE 'a.f' '')]"




definition state_with_path :: scan_state where
  "state_with_path = snd (scan (mock_world files_two) fresh_state ''src/main.f'' env_inc ''prog'')"

definition files_no_a :: "(node \<times> string) list" where
  "files_no_a = [(''src/b.f'', ''      INCLUDE 'a.f' '')]"

definition state_stale :: scan_state where
  "state_stale = snd (scan (mock_world files_no_a) fresh_state ''src/a.f'' Map.empty ''a.o'')"

section \<open>Properties\<close>

subsection \<open>Basic facts about the steps of \<^verbatim>\<open>scan\<close>\<close>

lemma set_f77path_eq: "set_f77path w s env t = (Inr (), with_path w s env t)"
  by (auto simp: set_f77path_def with_path_def search_path_def getitem_def map_upd_triv
      split: option.splits)

lemma resolve_loop_eq:
  "resolve_loop w n dirs incs (nodes, warns) =
     (nodes @ resolved w dirs incs,
      warns @ map (\<lambda>i. DependencyWarning (warning_message i n)) (unresolved w dirs incs))"
  by (induction incs arbitrary: nodes warns)
     (auto simp: resolved_def unresolved_def map_filter_simps split: option.splits)

lemma st_Nil: "st [] M = []"
  by (simp add: st_def)

text \<open>The function \<^verbatim>\<open>scan\<close> with its first block and its loop summarised.\<close>

lemma scan_eq:
  "scan w s n env t =
     (let p = search_path w s env t; s1 = with_path w s env t; n' = rfile w n
      in case node_found_includes s n' p of
           Some nodes \<Rightarrow> (Inr (st nodes (normalize w)), s1)
         | None \<Rightarrow>
             if rexists w n' then
               (case get_includes w s1 n' of
                  (Inl e, s2) \<Rightarrow> (Inl e, s2)
                | (Inr incs, s2) \<Rightarrow>
                    (Inr (st (resolved w (get_dir w n' # p) incs) (normalize w)),
                     store_found
                       (s2\<lparr>warnings := warnings s2 @
                            map (\<lambda>i. DependencyWarning (warning_message i n'))
                              (unresolved w (get_dir w n' # p) incs)\<rparr>)
                       n' p (resolved w (get_dir w n' # p) incs)))
             else (Inr [], store_found s1 n' p []))"
  by (auto simp: scan_def set_f77path_eq getitem_def with_path_def resolve_loop_eq st_Nil Let_def
      split: option.splits sum.splits prod.splits)

lemma search_path_with_path [simp]:
  "search_path w (with_path w s env t) env' t = search_path w s env t"
  by (simp add: search_path_def with_path_def)

lemma with_path_idem [simp]:
  "with_path w (with_path w s env t) env' t = with_path w s env t"
  by (simp add: with_path_def search_path_def)

lemma with_path_fields [simp]:
  "node_found_includes (with_path w s env t) = node_found_includes s"
  "node_includes (with_path w s env t) = node_includes s"
  "warnings (with_path w s env t) = warnings s"
  "target_f77path (with_path w s env t) t = Some (search_path w s env t)"
  by (simp_all add: with_path_def)

lemma get_includes_path:
  "get_includes w (with_path w s env t) n =
     (fst (get_includes w s n), with_path w (snd (get_includes w s n)) env t)"
  by (auto simp: get_includes_def with_path_def search_path_def split: option.splits sum.splits)

lemma get_includes_fields [simp]:
  "target_f77path (snd (get_includes w s n)) = target_f77path s"
  "node_found_includes (snd (get_includes w s n)) = node_found_includes s"
  "warnings (snd (get_includes w s n)) = warnings s"
  by (auto simp: get_includes_def split: option.splits sum.splits)

lemma get_includes_Inl:
  "fst (get_includes w s n) = Inl e \<Longrightarrow> snd (get_includes w s n) = s"
  by (auto simp: get_includes_def split: option.splits sum.splits)

lemma search_path_get_includes [simp]:
  "search_path w (snd (get_includes w s n)) env t = search_path w s env t"
  by (simp add: search_path_def)

lemma store_found_fields [simp]:
  "target_f77path (store_found s n p nodes) = target_f77path s"
  "node_includes (store_found s n p nodes) = node_includes s"
  "warnings (store_found s n p nodes) = warnings s"
  "node_found_includes (store_found s n p nodes) n p = Some nodes"
  by (simp_all add: store_found_def)

lemma with_path_triv:
  "target_f77path s t = Some p \<Longrightarrow> with_path w s env t = s"
  by (simp add: with_path_def search_path_def map_upd_triv)

lemma search_path_triv:
  "target_f77path s t = Some p \<Longrightarrow> search_path w s env t = p"
  by (simp add: search_path_def)

lemma scan_target:
  "target_f77path (snd (scan w s n env t)) t = Some (search_path w s env t)"
  by (auto simp: scan_eq Let_def get_includes_path split: option.splits sum.splits prod.splits)

lemma scan_cached:
  "fst (scan w s n env t) = Inr deps \<Longrightarrow>
     \<exists>nodes. node_found_includes (snd (scan w s n env t)) (rfile w n) (search_path w s env t)
                = Some nodes \<and>
        deps = st nodes (normalize w)"
  by (auto simp: scan_eq Let_def st_Nil split: option.splits sum.splits prod.splits if_splits)

lemma scan_hit:
  "target_f77path s t = Some p \<Longrightarrow> node_found_includes s (rfile w n) p = Some nodes \<Longrightarrow>
     scan w s n env' t = (Inr (st nodes (normalize w)), s)"
  by (simp add: scan_eq search_path_triv with_path_triv)

lemma scan_twice:
  "scan w (snd (scan w s n env t)) n env t = scan w s n env t"
proof (cases "fst (scan w s n env t)")
  case (Inr deps)
  from scan_cached[OF Inr] obtain nodes where
    c: "node_found_includes (snd (scan w s n env t)) (rfile w n) (search_path w s env t)
          = Some nodes"
    and d: "deps = st nodes (normalize w)" by blast
  have "scan w (snd (scan w s n env t)) n env t =
          (Inr (st nodes (normalize w)), snd (scan w s n env t))"
    by (rule scan_hit[OF scan_target c])
  with Inr d show ?thesis by (simp add: prod_eq_iff)
next
  case (Inl e)
  then have a: "node_found_includes s (rfile w n) (search_path w s env t) = None"
    and b: "rexists w (rfile w n)"
    and c: "fst (get_includes w s (rfile w n)) = Inl e"
    by (auto simp: scan_eq Let_def get_includes_path
        split: option.splits sum.splits prod.splits if_splits)
  from c have d: "snd (get_includes w s (rfile w n)) = s"
    by (rule get_includes_Inl)
  from a b c d have e: "scan w s n env t = (Inl e, with_path w s env t)"
    by (simp add: scan_eq Let_def get_includes_path split: prod.splits)
  from a b c d have "scan w (with_path w s env t) n env t = (Inl e, with_path w s env t)"
    by (simp add: scan_eq Let_def get_includes_path split: prod.splits)
  with e show ?thesis by simp
qed

subsection \<open>Facts about the Schwartzian transform and the loop\<close>

lemma sorted_map_fst:
  "sorted (ps :: ('k::linorder \<times> 'a::linorder) list) \<Longrightarrow> sorted (map fst ps)"
  by (induction ps) (auto simp: less_eq_prod_def)

lemma map_fst_stripit:
  "\<forall>p \<in> set ps. fst p = M (stripit p) \<Longrightarrow> map fst ps = map M (map stripit ps)"
  by (induction ps) auto

lemma map_fst_sort_pairing:
  "map fst (sort (map (pairing M) xs)) = map M (map stripit (sort (map (pairing M) xs)))"
  by (rule map_fst_stripit) (auto simp: pairing_def stripit_def)

lemma sorted_st: "sorted (map M (st xs M))"
proof -
  have "sorted (map fst (sort (map (pairing M) xs)))"
    by (rule sorted_map_fst) simp
  then show ?thesis by (simp add: st_def map_fst_sort_pairing)
qed

lemma stripit_pairing: "stripit \<circ> pairing M = id"
  by (auto simp: stripit_def pairing_def)

lemma mset_st: "mset (st xs M) = mset xs"
proof -
  have "mset (st xs M) = image_mset stripit (mset (sort (map (pairing M) xs)))"
    by (simp add: st_def)
  also have "\<dots> = image_mset stripit (image_mset (pairing M) (mset xs))"
    by simp
  also have "\<dots> = mset xs"
    by (simp add: multiset.map_comp stripit_pairing)
  finally show ?thesis .
qed

lemma st_perm: "mset ys = mset xs \<Longrightarrow> st ys M = st xs M"
proof -
  assume "mset ys = mset xs"
  then have "mset (map (pairing M) ys) = mset (map (pairing M) xs)" by simp
  then have "sort (map (pairing M) ys) = sort (map (pairing M) xs)"
    by (metis properties_for_sort sorted_sort mset_sort)
  then show ?thesis by (simp add: st_def)
qed

lemma remdups_map_inj_on:
  "inj_on f (set xs) \<Longrightarrow> remdups (map f xs) = map f (remdups xs)"
  by (induction xs) (auto simp: inj_on_def)

lemma remdups_sort_set:
  "set (ys :: 'a::linorder list) = set xs \<Longrightarrow> remdups (sort ys) = remdups (sort xs)"
proof -
  assume "set ys = set xs"
  then have e: "set (remdups (sort ys)) = set (remdups (sort xs))" by simp
  have a: "sorted (remdups (sort ys))" by (simp add: sorted_remdups)
  have b: "distinct (remdups (sort ys))" by simp
  have c: "sorted (remdups (sort xs))" by (simp add: sorted_remdups)
  have d: "distinct (remdups (sort xs))" by simp
  from a b c d e show ?thesis by (rule sorted_distinct_set_unique)
qed

lemma st_set: "set ys = set xs \<Longrightarrow> remdups (st ys M) = remdups (st xs M)"
proof -
  assume h: "set ys = set xs"
  have inj: "inj_on stripit (set (sort (map (pairing M) zs)))" for zs :: "'a list"
    by (auto simp: inj_on_def stripit_def pairing_def)
  from h have "set (map (pairing M) ys) = set (map (pairing M) xs)" by simp
  then have "remdups (sort (map (pairing M) ys)) = remdups (sort (map (pairing M) xs))"
    by (rule remdups_sort_set)
  then show ?thesis by (simp add: st_def remdups_map_inj_on[OF inj])
qed

lemma mset_map_filter_perm:
  "mset xs = mset ys \<Longrightarrow> mset (List.map_filter f xs) = mset (List.map_filter f ys)"
proof -
  assume h: "mset xs = mset ys"
  have "mset (List.map_filter f zs) = image_mset (the \<circ> f) (filter_mset (\<lambda>x. f x \<noteq> None) (mset zs))" for zs
    by (simp add: List.map_filter_def)
  then show ?thesis by (simp only: h)
qed

lemma resolved_perm: "mset incs' = mset incs \<Longrightarrow> mset (resolved w dirs incs') = mset (resolved w dirs incs)"
  unfolding resolved_def by (rule mset_map_filter_perm)

lemma scan_fresh:
  assumes "node_found_includes s (rfile w n) (search_path w s env t) = None"
    and "rexists w (rfile w n)"
    and "fst (get_includes w s (rfile w n)) = Inr incs"
  shows "scan w s n env t =
     (Inr (st (resolved w (get_dir w (rfile w n) # search_path w s env t) incs) (normalize w)),
      store_found
        ((with_path w (snd (get_includes w s (rfile w n))) env t)
           \<lparr>warnings := warnings s @
              map (\<lambda>i. DependencyWarning (warning_message i (rfile w n)))
                (unresolved w (get_dir w (rfile w n) # search_path w s env t) incs)\<rparr>)
        (rfile w n) (search_path w s env t)
        (resolved w (get_dir w (rfile w n) # search_path w s env t) incs))"
  using assms by (simp add: scan_eq Let_def get_includes_path split: prod.splits)

lemma set_resolved:
  "set (resolved w dirs incs) = {f. \<exists>i \<in> set incs. find_file w i dirs = Some f}"
  unfolding resolved_def by (induction incs) (auto simp: map_filter_simps split: option.splits)

lemma distinct_st: "distinct (st xs M) = distinct xs"
  by (rule mset_eq_imp_distinct_iff) (rule mset_st)


lemma find_file_first:
  "\<forall>d' \<in> set pre. \<not> exists_file w (File w x d') \<Longrightarrow> exists_file w (File w x d) \<Longrightarrow>
     find_file w x (pre @ d # post) = Some (File w x d)"
  by (induction pre) auto

lemma find_file_None:
  "(find_file w x dirs = None) = (\<forall>d \<in> set dirs. \<not> exists_file w (File w x d))"
  by (induction dirs) auto

subsection \<open>Facts about the contents and the errors\<close>

lemma find_file_get_contents [simp]:
  "find_file (w\<lparr>get_contents := gc\<rparr>) x dirs = find_file w x dirs"
  by (induction dirs) auto

lemma get_contents_irrelevant [simp]:
  "search_path (w\<lparr>get_contents := gc\<rparr>) s env t = search_path w s env t"
  "with_path (w\<lparr>get_contents := gc\<rparr>) s env t = with_path w s env t"
  "resolved (w\<lparr>get_contents := gc\<rparr>) dirs incs = resolved w dirs incs"
  "unresolved (w\<lparr>get_contents := gc\<rparr>) dirs incs = unresolved w dirs incs"
  "normalize (w\<lparr>get_contents := gc\<rparr>) = normalize w"
  by (simp_all add: search_path_def with_path_def resolved_def unresolved_def normalize_def
      fun_eq_iff split: option.splits)




lemma get_includes_None:
  "node_includes s n = None \<Longrightarrow> get_contents w n = Inr c \<Longrightarrow>
     get_includes w s n = (Inr (findall c), s\<lparr>node_includes := (node_includes s)(n \<mapsto> findall c)\<rparr>)"
  by (simp add: get_includes_def)

lemma get_includes_Inl_contents:
  "fst (get_includes w s n) = Inl e \<Longrightarrow> get_contents w n = Inl e"
  by (auto simp: get_includes_def split: option.splits sum.splits)

lemma scan_error_from_contents:
  "fst (scan w s n env t) = Inl e \<Longrightarrow> get_contents w (rfile w n) = Inl e"
  by (auto simp: scan_eq Let_def get_includes_path dest: get_includes_Inl_contents
      split: option.splits sum.splits prod.splits if_splits)

subsection \<open>Facts about the recursive scan\<close>

lemma get_includes_fst_cong:
  "node_includes s n = node_includes s' n \<Longrightarrow> fst (get_includes w s n) = fst (get_includes w s' n)"
  by (simp add: get_includes_def split: option.splits sum.splits)

lemma scan_fst_cong:
  assumes "search_path w s env t = search_path w s' env t"
    and "node_found_includes s (rfile w n) = node_found_includes s' (rfile w n)"
    and "node_includes s (rfile w n) = node_includes s' (rfile w n)"
  shows "fst (scan w s n env t) = fst (scan w s' n env t)"
proof -
  from assms(3) have g: "fst (get_includes w s (rfile w n)) = fst (get_includes w s' (rfile w n))"
    by (rule get_includes_fst_cong)
  show ?thesis
    using assms(1,2) g
    by (auto simp: scan_eq Let_def get_includes_path split: option.splits prod.splits sum.splits)
qed

lemma get_includes_frame:
  "n' \<noteq> n \<Longrightarrow> node_includes (snd (get_includes w s n)) n' = node_includes s n'"
  by (auto simp: get_includes_def split: option.splits sum.splits)

lemma store_found_frame:
  "n' \<noteq> n \<Longrightarrow> node_found_includes (store_found s n p nodes) n' = node_found_includes s n'"
  by (simp add: store_found_def)

lemma scan_frame:
  assumes "rfile w m \<noteq> n'"
  shows "node_found_includes (snd (scan w s m env t)) n' = node_found_includes s n'"
    and "node_includes (snd (scan w s m env t)) n' = node_includes s n'"
  using assms
  by (auto simp: scan_eq Let_def get_includes_path store_found_frame get_includes_frame
      split: option.splits prod.splits sum.splits)

lemma search_path_scan:
  "search_path w (snd (scan w s m env t)) env t = search_path w s env t"
  by (rule search_path_triv) (rule scan_target)

lemma scan_rfile_eq:
  "rfile w m = rfile w n \<Longrightarrow> scan w s m env t = scan w s n env t"
  by (simp add: scan_eq)

lemma scan_stable:
  "fst (scan w (snd (scan w s m env t)) n env t) = fst (scan w s n env t)"
proof (cases "rfile w m = rfile w n")
  case True
  then have "scan w s m env t = scan w s n env t"
    by (rule scan_rfile_eq)
  then show ?thesis by (simp add: scan_twice)
next
  case False
  show ?thesis
    by (rule scan_fst_cong) (simp_all add: search_path_scan scan_frame[OF False])
qed

lemma same_results_refl: "same_results w env t s0 s0"
  by (simp add: same_results_def)

lemma same_results_scan:
  "same_results w env t s0 s \<Longrightarrow> same_results w env t s0 (snd (scan w s m env t))"
  by (simp add: same_results_def scan_stable)

lemma card_visiting:
  assumes "finite U" "n \<in> U" "n \<notin> set visiting" "card (U - set visiting) < Suc k"
  shows "card (U - set (n # visiting)) < k"
proof -
  have e: "U - set (n # visiting) = (U - set visiting) - {n}" by auto
  from assms have "n \<in> U - set visiting" by simp
  moreover from assms have "finite (U - set visiting)" by simp
  ultimately have "card ((U - set visiting) - {n}) < card (U - set visiting)"
    by (meson card_Diff1_less)
  with assms(4) e show ?thesis by simp
qed

lemma visit_total:
  "finite U \<Longrightarrow>
   \<forall>n ds. fst (scan w s0 n env t) = Inr ds \<longrightarrow> set ds \<subseteq> U \<Longrightarrow>
   \<forall>n. \<exists>ds. fst (scan w s0 n env t) = Inr ds \<Longrightarrow>
   same_results w env t s0 s \<Longrightarrow> n \<in> U \<Longrightarrow> card (U - set visiting) < k \<Longrightarrow>
     \<exists>acc s'. visit k w env t visiting s n = Some (Inr acc, s') \<and>
        same_results w env t s0 s' \<and>
        (n \<notin> set visiting \<longrightarrow>
           (\<exists>ds. fst (scan w s0 n env t) = Inr ds \<and> set ds \<subseteq> set acc))"
  and visit_all_total:
  "finite U \<Longrightarrow>
   \<forall>n ds. fst (scan w s0 n env t) = Inr ds \<longrightarrow> set ds \<subseteq> U \<Longrightarrow>
   \<forall>n. \<exists>ds. fst (scan w s0 n env t) = Inr ds \<Longrightarrow>
   same_results w env t s0 s \<Longrightarrow> set dl \<subseteq> U \<Longrightarrow> card (U - set visiting) < k \<Longrightarrow>
     \<exists>acc s'. visit_all k w env t visiting s dl = Some (Inr acc, s') \<and>
        same_results w env t s0 s'"
proof (induction k w env t visiting s n and k w env t visiting s dl rule: visit_visit_all.induct)
  case (1 w env t visiting s n)
  then show ?case by simp
next
  case (2 k w env t visiting s n)
  show ?case
  proof (cases "n \<in> set visiting")
    case True
    with "2.prems"(4) show ?thesis by simp
  next
    case False
    from "2.prems"(3) obtain ds where ds: "fst (scan w s0 n env t) = Inr ds" by blast
    with "2.prems"(4) have a: "fst (scan w s n env t) = Inr ds"
      by (simp add: same_results_def)
    obtain s1 where sc: "scan w s n env t = (Inr ds, s1)"
      using a by (cases "scan w s n env t") simp
    from ds "2.prems"(2) have sub: "set ds \<subseteq> U" by blast
    from same_results_scan[OF "2.prems"(4), of n] sc
    have st: "same_results w env t s0 s1" by simp
    have cd: "card (U - set (n # visiting)) < k"
      by (rule card_visiting[OF "2.prems"(1) "2.prems"(5) False "2.prems"(6)])
    from "2.IH"[OF False sc[symmetric] refl "2.prems"(1) "2.prems"(2) "2.prems"(3) st sub cd]
    obtain acc s' where
      v: "visit_all k w env t (n # visiting) s1 ds = Some (Inr acc, s')"
      and r: "same_results w env t s0 s'" by blast
    from False v sc have "visit (Suc k) w env t visiting s n = Some (Inr (ds @ acc), s')"
      by simp
    with r ds show ?thesis by auto
  qed
next
  case (3 k w env t visiting s)
  then show ?case by simp
next
  case (4 k w env t visiting s d ds)
  from "4.prems"(5) have d: "d \<in> U" and sub: "set ds \<subseteq> U" by simp_all
  from "4.IH"(1)[OF "4.prems"(1) "4.prems"(2) "4.prems"(3) "4.prems"(4) d "4.prems"(6)]
  obtain r1 s1 where
    v: "visit k w env t visiting s d = Some (Inr r1, s1)"
    and r: "same_results w env t s0 s1" by blast
  from "4.IH"(2)[OF v refl refl "4.prems"(1) "4.prems"(2) "4.prems"(3) r sub "4.prems"(6)]
  obtain r2 s2 where
    v2: "visit_all k w env t visiting s1 ds = Some (Inr r2, s2)"
    and r2: "same_results w env t s0 s2" by blast
  from v v2 r2 show ?case by simp
qed

lemma scan_ok:
  assumes "\<forall>n. rexists w n \<longrightarrow> (\<exists>c. get_contents w n = Inr c)"
  shows "\<exists>ds. fst (scan w s n env t) = Inr ds"
proof (cases "fst (scan w s n env t)")
  case (Inl e)
  then have a: "rexists w (rfile w n)"
    by (auto simp: scan_eq Let_def split: option.splits if_splits)
  from Inl have "get_contents w (rfile w n) = Inl e"
    by (rule scan_error_from_contents)
  with a assms show ?thesis by auto
next
  case (Inr ds)
  then show ?thesis by blast
qed

lemma find_file_exists:
  "find_file w x dirs = Some f \<Longrightarrow> exists_file w f"
  by (induction dirs) (auto split: if_splits)

lemma set_st: "set (st xs M) = set xs"
  by (rule mset_eq_setD) (rule mset_st)

lemma scan_deps_exist:
  assumes "node_found_includes s (rfile w n) (search_path w s env t) = None"
    and "fst (scan w s n env t) = Inr ds"
  shows "set ds \<subseteq> {f. exists_file w f}"
  using assms
  by (auto simp: scan_eq Let_def set_st set_resolved dest: find_file_exists
      split: if_splits prod.splits sum.splits)

subsection \<open>The lines the pattern finds\<close>

text \<open>
  Matches of the pattern cannot overlap, so \<^verbatim>\<open>findall\<close> skips no line of the form the
  pattern describes: the name of every such line, wherever it stands in the contents, is
  among the raw references.
\<close>

lemma not_blank_quote [simp]: "\<not> is_blank (CHR 0x27)"
  by (simp add: is_blank_def)

lemma not_name_quote [simp]: "\<not> is_name_char (CHR 0x27)"
  by (simp add: is_name_char_def is_word_def)

lemma blank_not_name: "is_blank c \<Longrightarrow> \<not> is_name_char c"
  by (auto simp: is_blank_def is_name_char_def is_word_def)

lemma takeWhile_all: "list_all P xs \<Longrightarrow> \<not> P y \<Longrightarrow> takeWhile P (xs @ y # zs) = xs"
  by (induction xs) auto

lemma dropWhile_all: "list_all P xs \<Longrightarrow> \<not> P y \<Longrightarrow> dropWhile P (xs @ y # zs) = y # zs"
  by (induction xs) auto

lemma match_at_directive:
  assumes "well_formed ws name"
  shows "match_at (directive ws name @ post) = Some (name, post)"
  using assms
  by (simp add: match_at_def directive_def well_formed_def takeWhile_all dropWhile_all)

lemma takeWhile_dropWhile_all: "list_all P (takeWhile P xs)"
  by (induction xs) auto

lemma strip_prefix_append: "strip_prefix p s = Some r \<Longrightarrow> s = p @ r"
  by (induction p s rule: strip_prefix.induct) (auto split: if_splits)

lemma match_at_shape:
  assumes "match_at s = Some (g, r)"
  shows "\<exists>ws. well_formed ws g \<and> s = directive ws g @ r"
proof -
  from assms obtain r1 r2 where
    a: "strip_prefix ''INCLUDE'' s = Some r1" and
    b: "takeWhile is_blank r1 \<noteq> []" and
    c: "dropWhile is_blank r1 = CHR 0x27 # r2" and
    d: "takeWhile is_name_char r2 \<noteq> []" and
    e: "dropWhile is_name_char r2 = CHR 0x27 # r" and
    g: "g = takeWhile is_name_char r2"
    by (auto simp: match_at_def split: option.splits list.splits if_splits)
  from a have 1: "s = ''INCLUDE'' @ r1" by (rule strip_prefix_append)
  have "r1 = takeWhile is_blank r1 @ dropWhile is_blank r1" by simp
  with c have 2: "r1 = takeWhile is_blank r1 @ CHR 0x27 # r2" by simp
  have "r2 = takeWhile is_name_char r2 @ dropWhile is_name_char r2" by simp
  with e g have 3: "r2 = g @ CHR 0x27 # r" by simp
  have w: "well_formed (takeWhile is_blank r1) g"
    using b d g by (simp add: well_formed_def takeWhile_dropWhile_all)
  have "s = directive (takeWhile is_blank r1) g @ r"
    using 1 2 3 by (simp add: directive_def)
  with w show ?thesis by blast
qed

lemma skip_no_I:
  "\<forall>c \<in> set l. c \<noteq> CHR ''I'' \<Longrightarrow> p @ CHR ''I'' # X = l @ rest \<Longrightarrow>
     \<exists>p'. p = l @ p' \<and> p' @ CHR ''I'' # X = rest"
proof (induction l arbitrary: p)
  case Nil
  then show ?case by simp
next
  case (Cons a l)
  then show ?case by (cases p) auto
qed

lemma blank_not_I: "is_blank c \<Longrightarrow> c \<noteq> CHR ''I''"
  by (auto simp: is_blank_def)

lemma name_run:
  assumes g: "list_all is_name_char g"
    and ws: "ws \<noteq> []" "list_all is_blank ws"
    and eq: "p @ ''INCLUDE'' @ ws @ Y = g @ CHR 0x27 # r"
  shows "\<exists>p'. p = g @ CHR 0x27 # p' \<and> p' @ ''INCLUDE'' @ ws @ Y = r"
proof -
  from ws obtain b ws' where b: "ws = b # ws'" "is_blank b"
    by (cases ws) auto
  from eq obtain us where
    "(p = g @ us \<and> us @ ''INCLUDE'' @ ws @ Y = CHR 0x27 # r) \<or>
     (p @ us = g \<and> ''INCLUDE'' @ ws @ Y = us @ CHR 0x27 # r)"
    by (auto simp: append_eq_append_conv2)
  then show ?thesis
  proof
    assume h: "p = g @ us \<and> us @ ''INCLUDE'' @ ws @ Y = CHR 0x27 # r"
    then show ?thesis by (cases us) auto
  next
    assume h: "p @ us = g \<and> ''INCLUDE'' @ ws @ Y = us @ CHR 0x27 # r"
    with g have u: "list_all is_name_char us" by auto
    have n: "list_all is_name_char ''INCLUDE''"
      by (simp add: is_name_char_def is_word_def)
    from b have nb: "\<not> is_name_char b" by (simp add: blank_not_name)
    from h b have e: "''INCLUDE'' @ b # (ws' @ Y) = us @ CHR 0x27 # r" by simp
    have t1: "takeWhile is_name_char (''INCLUDE'' @ b # (ws' @ Y)) = ''INCLUDE''"
      by (rule takeWhile_all[OF n nb])
    have t2: "takeWhile is_name_char (us @ CHR 0x27 # r) = us"
      by (rule takeWhile_all[OF u not_name_quote])
    have d1: "dropWhile is_name_char (''INCLUDE'' @ b # (ws' @ Y)) = b # (ws' @ Y)"
      by (rule dropWhile_all[OF n nb])
    have d2: "dropWhile is_name_char (us @ CHR 0x27 # r) = CHR 0x27 # r"
      by (rule dropWhile_all[OF u not_name_quote])
    from d1 have "dropWhile is_name_char (us @ CHR 0x27 # r) = b # (ws' @ Y)"
      by (simp only: e)
    with d2 have "b = CHR 0x27" by simp
    with b(2) show ?thesis by simp
  qed
qed

lemma no_overlap:
  assumes m: "match_at (pre @ directive ws name @ post) = Some (g, r)"
    and w: "well_formed ws name" and pre: "pre \<noteq> []"
  shows "\<exists>pre'. r = pre' @ directive ws name @ post \<and> length pre' < length pre"
proof -
  from match_at_shape[OF m] obtain ws1 where
    w1: "well_formed ws1 g" and
    s: "pre @ directive ws name @ post = directive ws1 g @ r" by blast
  let ?X = "''NCLUDE'' @ ws @ [CHR 0x27] @ name @ [CHR 0x27] @ post"
  from s have s': "pre @ CHR ''I'' # ?X = CHR ''I'' # ''NCLUDE'' @ ws1 @ [CHR 0x27] @ g @ CHR 0x27 # r"
    by (simp add: directive_def)
  from pre obtain pre1 where p1: "pre = CHR ''I'' # pre1"
    using s' by (cases pre) auto
  with s' have s2: "pre1 @ CHR ''I'' # ?X = (''NCLUDE'' @ ws1 @ [CHR 0x27]) @ (g @ CHR 0x27 # r)"
    by simp
  have "\<forall>c \<in> set (''NCLUDE'' @ ws1 @ [CHR 0x27]). c \<noteq> CHR ''I''"
    using w1 by (auto simp: well_formed_def list_all_iff dest: blank_not_I)
  from skip_no_I[OF this s2] obtain p2 where
    p2: "pre1 = (''NCLUDE'' @ ws1 @ [CHR 0x27]) @ p2" and
    s3: "p2 @ CHR ''I'' # ?X = g @ CHR 0x27 # r" by blast
  from s3 have s4: "p2 @ ''INCLUDE'' @ ws @ ([CHR 0x27] @ name @ [CHR 0x27] @ post) = g @ CHR 0x27 # r"
    by simp
  from w1 w have "list_all is_name_char g" "ws \<noteq> []" "list_all is_blank ws"
    by (simp_all add: well_formed_def)
  from name_run[OF this s4] obtain p3 where
    p3: "p2 = g @ CHR 0x27 # p3" and
    s5: "p3 @ ''INCLUDE'' @ ws @ ([CHR 0x27] @ name @ [CHR 0x27] @ post) = r" by blast
  from s5 have "r = p3 @ directive ws name @ post"
    by (simp add: directive_def)
  moreover from p1 p2 p3 have "length p3 < length pre" by simp
  ultimately show ?thesis by blast
qed

lemma findall_match:
  assumes "match_at s = Some (g, r)"
  shows "findall s = g # findall r"
proof (cases s)
  case Nil
  with assms show ?thesis by (simp add: match_at_def)
next
  case (Cons c cs)
  with assms show ?thesis by simp
qed

lemma findall_finds_directive:
  assumes "well_formed ws name"
  shows "name \<in> set (findall (pre @ directive ws name @ post))"
proof (induction pre rule: measure_induct_rule[where f = length])
  case (less pre)
  show ?case
  proof (cases pre)
    case Nil
    have "findall (directive ws name @ post) = name # findall post"
      by (rule findall_match) (rule match_at_directive[OF assms])
    with Nil show ?thesis by simp
  next
    case (Cons c pre')
    show ?thesis
    proof (cases "match_at (pre @ directive ws name @ post)")
      case None
      with Cons have "findall (pre @ directive ws name @ post) =
          findall (pre' @ directive ws name @ post)"
        by simp
      moreover have "name \<in> set (findall (pre' @ directive ws name @ post))"
        by (rule less.IH) (simp add: Cons)
      ultimately show ?thesis by simp
    next
      case (Some a)
      obtain g r where a: "a = (g, r)" by (cases a)
      with Some have m: "match_at (pre @ directive ws name @ post) = Some (g, r)" by simp
      from Cons have "pre \<noteq> []" by simp
      from no_overlap[OF m assms this] obtain p where
        r: "r = p @ directive ws name @ post" and l: "length p < length pre" by blast
      from m Cons have "findall (pre @ directive ws name @ post) = g # findall r"
        by simp
      moreover from less.IH[OF l] r have "name \<in> set (findall r)" by simp
      ultimately show ?thesis by simp
    qed
  qed
qed

subsection \<open>Further facts used by the properties\<close>





lemma scan_env_not_consulted:
  assumes "target_f77path s t = Some p"
  shows "scan w s n env' t = scan w s n env t"
  using assms
  by (simp add: scan_eq search_path_triv[OF assms] with_path_triv[OF assms])

lemma map_fst_sort:
  "map fst (sort (ps :: ('k::linorder \<times> 'a::linorder) list)) = sort (map fst ps)"
proof -
  have "mset (map fst (sort ps)) = mset (map fst ps)" by simp
  moreover have "sorted (map fst (sort ps))" by (rule sorted_map_fst) simp
  ultimately show ?thesis by (rule properties_for_sort[symmetric])
qed

lemma keys_st: "map M (st xs M) = sort (map M xs)"
proof -
  have "map M (st xs M) = map fst (sort (map (pairing M) xs))"
    by (simp add: st_def map_fst_sort_pairing)
  also have "\<dots> = sort (map fst (map (pairing M) xs))" by (rule map_fst_sort)
  also have "map fst (map (pairing M) xs) = map M xs" by (simp add: pairing_def comp_def)
  finally show ?thesis .
qed

lemma keys_st_cong:
  assumes "mset (map M ys) = mset (map M xs)"
  shows "map M (st ys M) = map M (st xs M)"
proof -
  from assms have "sort (map M ys) = sort (map M xs)"
    by (metis properties_for_sort sorted_sort mset_sort)
  then show ?thesis by (simp add: keys_st)
qed

lemma normalize_eq: "normalize w = my_normcase w"
  by (simp add: normalize_def fun_eq_iff)

lemma st_st: "st (st xs M) M = st xs M"
  by (rule st_perm) (rule mset_st)

lemma recursive_scan_returns:
  assumes "finite U"
    and "\<forall>n ds. fst (scan w s n env t) = Inr ds \<longrightarrow> set ds \<subseteq> U"
    and "\<forall>n. rexists w n \<longrightarrow> (\<exists>c. get_contents w n = Inr c)"
    and "fst (scan w s A env t) = Inr dsA" and "B \<in> set dsA"
    and "fst (scan w s B env t) = Inr dsB" and "A \<in> set dsB"
    and "card U < fuel"
  shows "\<exists>deps s'. implicit_dependencies fuel w s A env t = Some (Inr deps, s') \<and>
        B \<in> set deps \<and> distinct deps"
proof -
  from assms(2,6,7) have A: "A \<in> U" by blast
  have ok: "\<forall>n. \<exists>ds. fst (scan w s n env t) = Inr ds"
    using scan_ok[OF assms(3)] by blast
  from assms(8) have c: "card (U - set []) < fuel" by simp
  from visit_total[OF assms(1) assms(2) ok same_results_refl A c]
  obtain acc s' ds where
    v: "visit fuel w env t [] s A = Some (Inr acc, s')"
    and d: "fst (scan w s A env t) = Inr ds" and sub: "set ds \<subseteq> set acc"
    by auto
  from d assms(4,5) sub have B: "B \<in> set acc" by auto
  from v have "implicit_dependencies fuel w s A env t =
      Some (Inr (st (remdups acc) (normalize w)), s')"
    by (simp add: implicit_dependencies_def)
  moreover from B have "B \<in> set (st (remdups acc) (normalize w))"
    by (simp add: set_st)
  moreover have "distinct (st (remdups acc) (normalize w))"
    by (simp add: distinct_st)
  ultimately show ?thesis by blast
qed

lemma scan_finds_included:
  assumes "rexists w (rfile w A)"
    and "node_found_includes s (rfile w A) (search_path w s env t) = None"
    and "node_includes s (rfile w A) = None"
    and "get_contents w (rfile w A) = Inr (pre @ directive ws name @ post)"
    and "well_formed ws name"
    and "find_file w name (get_dir w (rfile w A) # search_path w s env t) = Some B"
  shows "\<exists>ds. fst (scan w s A env t) = Inr ds \<and> B \<in> set ds"
proof -
  let ?c = "pre @ directive ws name @ post"
  let ?dirs = "get_dir w (rfile w A) # search_path w s env t"
  from assms(3,4) have g: "fst (get_includes w s (rfile w A)) = Inr (findall ?c)"
    by (simp add: get_includes_None)
  from scan_fresh[OF assms(2) assms(1) g]
  have sc: "fst (scan w s A env t) = Inr (st (resolved w ?dirs (findall ?c)) (normalize w))"
    by simp
  have "name \<in> set (findall ?c)"
    by (rule findall_finds_directive[OF assms(5)])
  with assms(6) have "B \<in> set (resolved w ?dirs (findall ?c))"
    unfolding set_resolved by blast
  then have "B \<in> set (st (resolved w ?dirs (findall ?c)) (normalize w))"
    by (simp add: set_st)
  with sc show ?thesis by blast
qed

subsection \<open>C1: the scanner and lower-case INCLUDE lines\<close>

text \<open>
  C1. The claim is that the raw references contain the file name of every Fortran INCLUDE
  line of the contents, so that no dependency is missed; the docstring of \<^verbatim>\<open>scan\<close> says
  the same ("it never misses dependencies"). Fortran keywords are case-insensitive, and
  \<^verbatim>\<open>include_re\<close> matches the upper-case spelling only: for the contents
  \<^verbatim>\<open>      include 'foo.inc'\<close> the list of raw references is empty, and the scan of a
  file with these contents reports no dependency although \<^verbatim>\<open>foo.inc\<close> lies beside it.
  The same line in upper case is found, as is every line of the pattern's form
  (\<open>findall_finds_directive\<close> above).
\<close>

theorem findall_misses_lower_case_include:
  "findall ''      include 'foo.inc' '' = [] \<and>
   findall ''      INCLUDE 'foo.inc' '' = [''foo.inc''] \<and>
   exists_file (mock_world files_lower) ''src/foo.inc'' \<and>
   fst (scan (mock_world files_lower) fresh_state ''src/main.f'' Map.empty ''main.o'') = Inr []"
  by code_simp

subsection \<open>C9: scanning twice\<close>

text \<open>
  C9. Scanning the same unchanged node twice with the same search path returns the same,
  identically ordered result: the second scan, run in the state the first one left,
  returns what the first returned and changes nothing. When the first scan returned a
  dependency list, the state it left holds, under the node and the target's search path,
  the cached list of nodes of which the returned list is the sorted form; the second scan
  is served from that entry.
\<close>

theorem scan_twice_same_result:
  "scan w (snd (scan w s n env t)) n env t = scan w s n env t \<and>
   (\<forall>deps. fst (scan w s n env t) = Inr deps \<longrightarrow>
      (\<exists>p nodes. target_f77path (snd (scan w s n env t)) t = Some p \<and>
         node_found_includes (snd (scan w s n env t)) (rfile w n) p = Some nodes \<and>
         deps = st nodes (normalize w)))"
proof (intro conjI allI impI)
  show "scan w (snd (scan w s n env t)) n env t = scan w s n env t"
    by (rule scan_twice)
next
  fix deps
  assume "fst (scan w s n env t) = Inr deps"
  from scan_cached[OF this] scan_target[of w s n env t]
  show "\<exists>p nodes. target_f77path (snd (scan w s n env t)) t = Some p \<and>
          node_found_includes (snd (scan w s n env t)) (rfile w n) p = Some nodes \<and>
          deps = st nodes (normalize w)"
    by blast
qed

theorem scan_twice_same_result_witness:
  "fst (scan (mock_world files_main) fresh_state ''src/main.f'' Map.empty ''main.o'')
     = Inr [''src/a.inc'', ''src/b.inc'', ''src/b.inc''] \<and>
   scan (mock_world files_main)
     (snd (scan (mock_world files_main) fresh_state ''src/main.f'' Map.empty ''main.o''))
     ''src/main.f'' Map.empty ''main.o''
     = scan (mock_world files_main) fresh_state ''src/main.f'' Map.empty ''main.o'' \<and>
   (\<exists>p nodes.
      target_f77path
        (snd (scan (mock_world files_main) fresh_state ''src/main.f'' Map.empty ''main.o''))
        ''main.o'' = Some p \<and>
      node_found_includes
        (snd (scan (mock_world files_main) fresh_state ''src/main.f'' Map.empty ''main.o''))
        (rfile (mock_world files_main) ''src/main.f'') p = Some nodes \<and>
      [''src/a.inc'', ''src/b.inc'', ''src/b.inc''] = st nodes (normalize (mock_world files_main)))"
proof -
  have h: "fst (scan (mock_world files_main) fresh_state ''src/main.f'' Map.empty ''main.o'')
             = Inr [''src/a.inc'', ''src/b.inc'', ''src/b.inc'']"
    by code_simp
  from scan_twice_same_result
    [of "mock_world files_main" fresh_state "''src/main.f''" Map.empty "''main.o''"] h
  show ?thesis by blast
qed

subsection \<open>C4: the order of the result\<close>

text \<open>
  C4. The list a scan returns is sorted by the normalised path of its nodes, the key
  \<^verbatim>\<open>_my_normcase(str(node))\<close>, and its order does not depend on the order in which the
  references appear in the source text: the list is \<^verbatim>\<open>st(nodes, normalize)\<close> for the
  accumulated list \<open>nodes\<close>, it is a permutation of \<open>nodes\<close>, every permutation of \<open>nodes\<close>
  gives the same list, lists with the same set of nodes give the same list up to repeated
  entries, and the loop run on a permutation of the raw references gives the same sorted
  list. Node lists with the same keys give results with the same sequence of keys. Where
  \<^verbatim>\<open>_my_normcase\<close> is the case folding of the specification, the list is sorted by the
  case-folded path, and node lists that differ in the case of their paths only give
  results that agree, entry by entry, up to case.
\<close>

theorem scan_result_sorted:
  assumes "fst (scan w s n env t) = Inr deps"
  shows "sorted (map (normalize w) deps) \<and>
    (\<exists>nodes. deps = st nodes (normalize w) \<and> mset deps = mset nodes \<and>
       (\<forall>nodes'. mset nodes' = mset nodes \<longrightarrow> st nodes' (normalize w) = deps) \<and>
       (\<forall>nodes'. set nodes' = set nodes \<longrightarrow>
           remdups (st nodes' (normalize w)) = remdups deps)) \<and>
    (\<forall>dirs incs incs' ws ws'. mset incs' = mset incs \<longrightarrow>
       st (fst (resolve_loop w (rfile w n) dirs incs' ([], ws'))) (normalize w) =
       st (fst (resolve_loop w (rfile w n) dirs incs ([], ws))) (normalize w)) \<and>
    sorted (map (my_normcase w) deps) \<and>
    st deps (my_normcase w) = deps \<and>
    (\<forall>nodes'. mset nodes' = mset deps \<longrightarrow> st nodes' (my_normcase w) = deps) \<and>
    (\<forall>nodes'. mset (map (my_normcase w) nodes') = mset (map (my_normcase w) deps) \<longrightarrow>
       map (my_normcase w) (st nodes' (my_normcase w)) = map (my_normcase w) deps) \<and>
    (my_normcase w = case_folded \<longrightarrow>
       sorted (map case_folded deps) \<and>
       (\<forall>nodes'. mset (map case_folded nodes') = mset (map case_folded deps) \<longrightarrow>
          map case_folded (st nodes' case_folded) = map case_folded deps))"
proof -
  from scan_cached[OF assms] obtain nodes where d: "deps = st nodes (normalize w)"
    by blast
  have 1: "sorted (map (normalize w) deps)"
    unfolding d by (rule sorted_st)
  have 2: "mset deps = mset nodes"
    unfolding d by (rule mset_st)
  have 3: "\<forall>nodes'. mset nodes' = mset nodes \<longrightarrow> st nodes' (normalize w) = deps"
    unfolding d by (blast intro: st_perm)
  have 4: "\<forall>nodes'. set nodes' = set nodes \<longrightarrow>
             remdups (st nodes' (normalize w)) = remdups deps"
    unfolding d by (blast intro: st_set)
  have 5: "\<forall>dirs incs incs' ws ws'. mset incs' = mset incs \<longrightarrow>
       st (fst (resolve_loop w (rfile w n) dirs incs' ([], ws'))) (normalize w) =
       st (fst (resolve_loop w (rfile w n) dirs incs ([], ws))) (normalize w)"
    by (auto simp: resolve_loop_eq intro: st_perm resolved_perm)
  have 6: "sorted (map (my_normcase w) deps)"
    using 1 by (simp add: normalize_eq)
  have 7: "st deps (my_normcase w) = deps"
    unfolding d by (simp add: normalize_eq st_st)
  have 8: "\<forall>nodes'. mset nodes' = mset deps \<longrightarrow> st nodes' (my_normcase w) = deps"
    using 7 by (metis st_perm)
  have 9: "\<forall>nodes'. mset (map (my_normcase w) nodes') = mset (map (my_normcase w) deps) \<longrightarrow>
       map (my_normcase w) (st nodes' (my_normcase w)) = map (my_normcase w) deps"
    using 7 by (metis keys_st_cong)
  have 10: "my_normcase w = case_folded \<longrightarrow>
       sorted (map case_folded deps) \<and>
       (\<forall>nodes'. mset (map case_folded nodes') = mset (map case_folded deps) \<longrightarrow>
          map case_folded (st nodes' case_folded) = map case_folded deps)"
    using 6 9 by auto
  have e: "\<exists>nodes. deps = st nodes (normalize w) \<and> mset deps = mset nodes \<and>
       (\<forall>nodes'. mset nodes' = mset nodes \<longrightarrow> st nodes' (normalize w) = deps) \<and>
       (\<forall>nodes'. set nodes' = set nodes \<longrightarrow>
           remdups (st nodes' (normalize w)) = remdups deps)"
    using d 2 3 4 by blast
  show ?thesis
    by (intro conjI; fact)
qed

theorem scan_result_sorted_witness:
  "fst (scan (mock_world files_main) fresh_state ''src/main.f'' Map.empty ''main.o'')
     = Inr [''src/a.inc'', ''src/b.inc'', ''src/b.inc''] \<and>
   sorted (map (normalize (mock_world files_main)) [''src/a.inc'', ''src/b.inc'', ''src/b.inc'']) \<and>
   st (fst (resolve_loop (mock_world files_main) ''src/main.f'' [''src'']
              [''c.inc'', ''b.inc'', ''b.inc'', ''a.inc''] ([], [])))
      (normalize (mock_world files_main)) =
   st (fst (resolve_loop (mock_world files_main) ''src/main.f'' [''src'']
              [''b.inc'', ''a.inc'', ''b.inc'', ''c.inc''] ([], [])))
      (normalize (mock_world files_main)) \<and>
   my_normcase (folding_world files_case) = case_folded \<and>
   fst (scan (folding_world files_case) fresh_state ''src/main.f'' Map.empty ''main.o'')
     = Inr [''src/a.inc'', ''src/B.inc''] \<and>
   sorted (map case_folded [''src/a.inc'', ''src/B.inc'']) \<and>
   map case_folded [''src/a.inc'', ''src/B.inc''] = [''src/a.inc'', ''src/b.inc''] \<and>
   map case_folded [''SRC/B.INC'', ''Src/A.inc''] = [''src/b.inc'', ''src/a.inc''] \<and>
   map case_folded (st [''SRC/B.INC'', ''Src/A.inc''] case_folded)
     = map case_folded [''src/a.inc'', ''src/B.inc''] \<and>
   fst (scan (mock_world files_case) fresh_state ''src/main.f'' Map.empty ''main.o'')
     = Inr [''src/B.inc'', ''src/a.inc'']"
proof -
  have h: "fst (scan (mock_world files_main) fresh_state ''src/main.f'' Map.empty ''main.o'')
             = Inr [''src/a.inc'', ''src/b.inc'', ''src/b.inc'']"
    by code_simp
  have p: "mset [''c.inc'', ''b.inc'', ''b.inc'', ''a.inc''] = mset [''b.inc'', ''a.inc'', ''b.inc'', ''c.inc'']"
    by (simp add: add.commute)
  have r: "rfile (mock_world files_main) ''src/main.f'' = ''src/main.f''"
    by (simp add: mock_world_def)
  note t = scan_result_sorted[OF h]
  note t1 = t[THEN conjunct1]
  note t3 = t[THEN conjunct2, THEN conjunct2, THEN conjunct1, rule_format, OF p,
      of "[''src'']" "[]" "[]"]
  from t1 t3 have a:
    "sorted (map (normalize (mock_world files_main)) [''src/a.inc'', ''src/b.inc'', ''src/b.inc'']) \<and>
     st (fst (resolve_loop (mock_world files_main) ''src/main.f'' [''src'']
              [''c.inc'', ''b.inc'', ''b.inc'', ''a.inc''] ([], [])))
      (normalize (mock_world files_main)) =
     st (fst (resolve_loop (mock_world files_main) ''src/main.f'' [''src'']
              [''b.inc'', ''a.inc'', ''b.inc'', ''c.inc''] ([], [])))
      (normalize (mock_world files_main))"
    by (simp only: r simp_thms)
  have f: "my_normcase (folding_world files_case) = case_folded"
    by (simp add: folding_world_def)
  have g: "fst (scan (folding_world files_case) fresh_state ''src/main.f'' Map.empty ''main.o'')
     = Inr [''src/a.inc'', ''src/B.inc'']"
    by code_simp
  have e1: "map case_folded [''src/a.inc'', ''src/B.inc''] = [''src/a.inc'', ''src/b.inc'']"
    by code_simp
  have e2: "map case_folded [''SRC/B.INC'', ''Src/A.inc''] = [''src/b.inc'', ''src/a.inc'']"
    by code_simp
  have m: "mset (map case_folded [''SRC/B.INC'', ''Src/A.inc''])
     = mset (map case_folded [''src/a.inc'', ''src/B.inc''])"
    unfolding e1 e2 by (simp add: add_mset_commute)
  have i: "fst (scan (mock_world files_case) fresh_state ''src/main.f'' Map.empty ''main.o'')
     = Inr [''src/B.inc'', ''src/a.inc'']"
    by code_simp
  note k = scan_result_sorted[OF g, THEN conjunct2, THEN conjunct2, THEN conjunct2,
      THEN conjunct2, THEN conjunct2, THEN conjunct2, THEN conjunct2, rule_format, OF f]
  note k1 = k[THEN conjunct1]
  note k2 = k[THEN conjunct2, rule_format, OF m]
  from h a f g e1 e2 i k1 k2 show ?thesis by blast
qed

subsection \<open>C7: repeated references\<close>




subsection \<open>C5: references that resolve to no file\<close>

text \<open>
  C5 as stated does not hold in one point: the warning does not carry the search path.
  Its text is built from the reference and the including node only, so scans of the same
  file against the search paths \<^verbatim>\<open>inc\<close> and \<^verbatim>\<open>lib\<close> issue the same warning.
\<close>

theorem warning_without_search_path:
  "warnings (snd (scan (mock_world files_main) fresh_state ''src/main.f'' env_inc ''main.o''))
     = [DependencyWarning
         ''No dependency generated for file: c.inc (included from: src/main.f) -- file not found''] \<and>
   warnings (snd (scan (mock_world files_main) fresh_state ''src/main.f'' env_lib ''main.o''))
     = [DependencyWarning
         ''No dependency generated for file: c.inc (included from: src/main.f) -- file not found''] \<and>
   target_f77path (snd (scan (mock_world files_main) fresh_state ''src/main.f'' env_inc ''main.o''))
     ''main.o'' = Some [''inc''] \<and>
   target_f77path (snd (scan (mock_world files_main) fresh_state ''src/main.f'' env_lib ''main.o''))
     ''main.o'' = Some [''lib'']"
  by code_simp

text \<open>
  C5 (amended). A scan that resolves the references of an existing node (no result is
  cached for the search path, the raw references are available) does not fail on a
  reference that resolves to no file: it returns a list with exactly the nodes the other
  references resolve to, and it issues, in the order of the references, one warning for
  every unresolved reference, whose text carries the reference and the including node.
\<close>

theorem unresolved_reference_warning:
  assumes "node_found_includes s (rfile w n) (search_path w s env t) = None"
    and "rexists w (rfile w n)"
    and "fst (get_includes w s (rfile w n)) = Inr incs"
  shows "\<exists>deps s'. scan w s n env t = (Inr deps, s') \<and>
     set deps = {f. \<exists>i \<in> set incs.
                   find_file w i (get_dir w (rfile w n) # search_path w s env t) = Some f} \<and>
     warnings s' = warnings s @
       map (\<lambda>i. DependencyWarning (warning_message i (rfile w n)))
         (filter (\<lambda>i. find_file w i (get_dir w (rfile w n) # search_path w s env t) = None)
            incs)"
proof -
  let ?dirs = "get_dir w (rfile w n) # search_path w s env t"
  have "set (st (resolved w ?dirs incs) (normalize w)) = set (resolved w ?dirs incs)"
    by (rule mset_eq_setD) (rule mset_st)
  then show ?thesis
    by (simp add: scan_fresh[OF assms] set_resolved unresolved_def)
qed

theorem unresolved_reference_warning_witness:
  "node_found_includes fresh_state (rfile (mock_world files_main) ''src/main.f'')
     (search_path (mock_world files_main) fresh_state Map.empty ''main.o'') = None \<and>
   rexists (mock_world files_main) (rfile (mock_world files_main) ''src/main.f'') \<and>
   fst (get_includes (mock_world files_main) fresh_state
          (rfile (mock_world files_main) ''src/main.f''))
     = Inr [''b.inc'', ''a.inc'', ''b.inc'', ''c.inc''] \<and>
   fst (scan (mock_world files_main) fresh_state ''src/main.f'' Map.empty ''main.o'')
     = Inr [''src/a.inc'', ''src/b.inc'', ''src/b.inc''] \<and>
   warnings (snd (scan (mock_world files_main) fresh_state ''src/main.f'' Map.empty ''main.o''))
     = [DependencyWarning
         ''No dependency generated for file: c.inc (included from: src/main.f) -- file not found'']"
proof -
  let ?W = "mock_world files_main"
  have h1: "node_found_includes fresh_state (rfile ?W ''src/main.f'')
     (search_path ?W fresh_state Map.empty ''main.o'') = None"
    by (simp add: fresh_state_def)
  have h2: "rexists ?W (rfile ?W ''src/main.f'')"
    by code_simp
  have h3: "fst (get_includes ?W fresh_state (rfile ?W ''src/main.f''))
     = Inr [''b.inc'', ''a.inc'', ''b.inc'', ''c.inc'']"
    by code_simp
  have h4: "fst (scan ?W fresh_state ''src/main.f'' Map.empty ''main.o'')
     = Inr [''src/a.inc'', ''src/b.inc'', ''src/b.inc'']"
    by code_simp
  have h5: "warnings fresh_state @
       map (\<lambda>i. DependencyWarning (warning_message i (rfile ?W ''src/main.f'')))
         (filter (\<lambda>i. find_file ?W i (get_dir ?W (rfile ?W ''src/main.f'') #
                     search_path ?W fresh_state Map.empty ''main.o'') = None)
            [''b.inc'', ''a.inc'', ''b.inc'', ''c.inc''])
     = [DependencyWarning
         ''No dependency generated for file: c.inc (included from: src/main.f) -- file not found'']"
    by code_simp
  from unresolved_reference_warning[OF h1 h2 h3] obtain deps s' where
    a: "scan ?W fresh_state ''src/main.f'' Map.empty ''main.o'' = (Inr deps, s')" and
    b: "warnings s' = warnings fresh_state @
       map (\<lambda>i. DependencyWarning (warning_message i (rfile ?W ''src/main.f'')))
         (filter (\<lambda>i. find_file ?W i (get_dir ?W (rfile ?W ''src/main.f'') #
                     search_path ?W fresh_state Map.empty ''main.o'') = None)
            [''b.inc'', ''a.inc'', ''b.inc'', ''c.inc''])"
    by blast
  from a b h5 have "warnings (snd (scan ?W fresh_state ''src/main.f'' Map.empty ''main.o''))
     = [DependencyWarning
         ''No dependency generated for file: c.inc (included from: src/main.f) -- file not found'']"
    by simp
  with h1 h2 h3 h4 show ?thesis by blast
qed

subsection \<open>C3: the order of the search\<close>

text \<open>
  C3. A scan that resolves the references of a node resolves each against the directory
  of the node followed by the directories of the target's search path, in this order.
  The resolver returns the node of the first directory of its list that holds an existing
  file of the name, and nothing when no directory does; in particular, of two directories
  \<open>D1\<close> and \<open>D2\<close> in this order that both hold the file, \<open>D1\<close> wins.
\<close>

theorem resolution_order:
  assumes "node_found_includes s (rfile w n) (search_path w s env t) = None"
    and "rexists w (rfile w n)"
    and "fst (get_includes w s (rfile w n)) = Inr incs"
  shows "fst (scan w s n env t) =
       Inr (st (List.map_filter
                  (\<lambda>i. find_file w i (get_dir w (rfile w n) # search_path w s env t)) incs)
              (normalize w)) \<and>
     target_f77path (snd (scan w s n env t)) t = Some (search_path w s env t) \<and>
     (\<forall>i pre d post.
        (\<forall>d' \<in> set pre. \<not> exists_file w (File w i d')) \<and> exists_file w (File w i d) \<longrightarrow>
        find_file w i (pre @ d # post) = Some (File w i d)) \<and>
     (\<forall>i dirs. (\<forall>d \<in> set dirs. \<not> exists_file w (File w i d)) \<longrightarrow> find_file w i dirs = None) \<and>
     (\<forall>i D1 D2 ds. exists_file w (File w i D1) \<and> exists_file w (File w i D2) \<longrightarrow>
        find_file w i (D1 # D2 # ds) = Some (File w i D1))"
proof -
  have 1: "fst (scan w s n env t) =
       Inr (st (List.map_filter
                  (\<lambda>i. find_file w i (get_dir w (rfile w n) # search_path w s env t)) incs)
              (normalize w))"
    by (simp add: scan_fresh[OF assms] resolved_def)
  have 2: "target_f77path (snd (scan w s n env t)) t = Some (search_path w s env t)"
    by (rule scan_target)
  have 3: "\<forall>i pre d post.
        (\<forall>d' \<in> set pre. \<not> exists_file w (File w i d')) \<and> exists_file w (File w i d) \<longrightarrow>
        find_file w i (pre @ d # post) = Some (File w i d)"
    by (blast intro: find_file_first)
  have 4: "\<forall>i dirs. (\<forall>d \<in> set dirs. \<not> exists_file w (File w i d)) \<longrightarrow> find_file w i dirs = None"
    by (simp add: find_file_None)
  have 5: "\<forall>i D1 D2 ds. exists_file w (File w i D1) \<and> exists_file w (File w i D2) \<longrightarrow>
        find_file w i (D1 # D2 # ds) = Some (File w i D1)"
    by simp
  from 1 2 3 4 5 show ?thesis by blast
qed

theorem resolution_order_witness:
  "node_found_includes fresh_state (rfile (mock_world files_main) ''src/main.f'')
     (search_path (mock_world files_main) fresh_state env_inc ''main.o'') = None \<and>
   rexists (mock_world files_main) (rfile (mock_world files_main) ''src/main.f'') \<and>
   fst (get_includes (mock_world files_main) fresh_state
          (rfile (mock_world files_main) ''src/main.f''))
     = Inr [''b.inc'', ''a.inc'', ''b.inc'', ''c.inc''] \<and>
   exists_file (mock_world files_main) (File (mock_world files_main) ''b.inc'' ''src'') \<and>
   exists_file (mock_world files_main) (File (mock_world files_main) ''b.inc'' ''inc'') \<and>
   find_file (mock_world files_main) ''b.inc'' [''src'', ''inc'']
     = Some (File (mock_world files_main) ''b.inc'' ''src'') \<and>
   File (mock_world files_main) ''b.inc'' ''src'' = ''src/b.inc'' \<and>
   target_f77path (snd (scan (mock_world files_main) fresh_state ''src/main.f'' env_inc ''main.o''))
     ''main.o'' = Some [''inc''] \<and>
   fst (scan (mock_world files_main) fresh_state ''src/main.f'' env_inc ''main.o'')
     = Inr [''src/a.inc'', ''src/b.inc'', ''src/b.inc'']"
proof -
  let ?W = "mock_world files_main"
  have h1: "node_found_includes fresh_state (rfile ?W ''src/main.f'')
     (search_path ?W fresh_state env_inc ''main.o'') = None"
    by (simp add: fresh_state_def)
  have h2: "rexists ?W (rfile ?W ''src/main.f'')"
    by code_simp
  have h3: "fst (get_includes ?W fresh_state (rfile ?W ''src/main.f''))
     = Inr [''b.inc'', ''a.inc'', ''b.inc'', ''c.inc'']"
    by code_simp
  have e1: "exists_file ?W (File ?W ''b.inc'' ''src'')" by code_simp
  have e2: "exists_file ?W (File ?W ''b.inc'' ''inc'')" by code_simp
  have e3: "File ?W ''b.inc'' ''src'' = ''src/b.inc''" by code_simp
  have e4: "search_path ?W fresh_state env_inc ''main.o'' = [''inc'']" by code_simp
  have e5: "st (List.map_filter
                  (\<lambda>i. find_file ?W i (get_dir ?W (rfile ?W ''src/main.f'') #
                          search_path ?W fresh_state env_inc ''main.o''))
                  [''b.inc'', ''a.inc'', ''b.inc'', ''c.inc''])
              (normalize ?W) = [''src/a.inc'', ''src/b.inc'', ''src/b.inc'']"
    by code_simp
  note r = resolution_order[OF h1 h2 h3]
  from r e5 have a: "fst (scan ?W fresh_state ''src/main.f'' env_inc ''main.o'')
     = Inr [''src/a.inc'', ''src/b.inc'', ''src/b.inc'']" by simp
  from r e4 have b: "target_f77path (snd (scan ?W fresh_state ''src/main.f'' env_inc ''main.o''))
     ''main.o'' = Some [''inc'']" by simp
  from r e1 e2 have c: "find_file ?W ''b.inc'' [''src'', ''inc'']
     = Some (File ?W ''b.inc'' ''src'')" by blast
  from h1 h2 h3 e1 e2 e3 a b c show ?thesis by blast
qed

subsection \<open>C2: a change of the contents\<close>




subsection \<open>C6: a node that does not exist yet\<close>




subsection \<open>C10: an environment without F77PATH\<close>

text \<open>
  C10 as stated does not hold for every scan: \<^verbatim>\<open>env['F77PATH']\<close> is looked up only when
  the target has no attribute \<^verbatim>\<open>f77path\<close> yet. After a scan for the target \<^verbatim>\<open>prog\<close> with
  \<^verbatim>\<open>F77PATH = ['inc']\<close>, a scan for the same target with an environment that does not
  define the variable uses the cached path and finds \<^verbatim>\<open>x.inc\<close> in \<^verbatim>\<open>inc\<close>.
\<close>

theorem cached_path_used_without_F77PATH:
  "(Map.empty :: env) ''F77PATH'' = None \<and>
   target_f77path (snd (scan (mock_world files_two) state_with_path ''src/other.f'' Map.empty ''prog''))
     ''prog'' = Some [''inc''] \<and>
   fst (scan (mock_world files_two) state_with_path ''src/other.f'' Map.empty ''prog'')
     = Inr [''inc/x.inc''] \<and>
   fst (scan (mock_world files_two) fresh_state ''src/other.f'' Map.empty ''prog'') = Inr []"
  by code_simp

text \<open>
  C10 (amended). For a scan whose target has no cached \<^verbatim>\<open>f77path\<close> and whose environment
  does not define \<^verbatim>\<open>F77PATH\<close>, the lookup raises \<^verbatim>\<open>KeyError\<close>, the error is caught and
  the search path becomes the empty tuple; the only errors that leave the scan are those
  of reading the contents of the node; and the references are resolved against the
  directory of the node alone. For a scan whose target carries a cached \<^verbatim>\<open>f77path\<close>, the
  first block changes nothing, the environment is not consulted (the scan has the same
  outcome for every environment), and the references are resolved against the directory
  of the node followed by the cached path.
\<close>

theorem missing_F77PATH_gives_empty_path:
  "(env ''F77PATH'' = None \<and> target_f77path s t = None \<longrightarrow>
     getitem env ''F77PATH'' = Inl KeyError \<and>
     set_f77path w s env t = (Inr (), s\<lparr>target_f77path := (target_f77path s)(t \<mapsto> [])\<rparr>) \<and>
     target_f77path (snd (scan w s n env t)) t = Some [] \<and>
     (\<forall>e. fst (scan w s n env t) = Inl e \<longrightarrow> get_contents w (rfile w n) = Inl e) \<and>
     (node_found_includes s (rfile w n) [] = None \<and> rexists w (rfile w n) \<and>
      fst (get_includes w s (rfile w n)) = Inr incs \<longrightarrow>
        fst (scan w s n env t) =
          Inr (st (resolved w [get_dir w (rfile w n)] incs) (normalize w)))) \<and>
   (target_f77path s t = Some p \<longrightarrow>
     (\<forall>env'. scan w s n env' t = scan w s n env t) \<and>
     set_f77path w s env t = (Inr (), s) \<and>
     target_f77path (snd (scan w s n env t)) t = Some p \<and>
     (node_found_includes s (rfile w n) p = None \<and> rexists w (rfile w n) \<and>
      fst (get_includes w s (rfile w n)) = Inr incs \<longrightarrow>
        fst (scan w s n env t) =
          Inr (st (resolved w (get_dir w (rfile w n) # p) incs) (normalize w))))"
proof (intro conjI impI)
  assume a: "env ''F77PATH'' = None \<and> target_f77path s t = None"
  then have p: "search_path w s env t = []"
    by (simp add: search_path_def)
  show "getitem env ''F77PATH'' = Inl KeyError"
    using a by (simp add: getitem_def)
  show "set_f77path w s env t = (Inr (), s\<lparr>target_f77path := (target_f77path s)(t \<mapsto> [])\<rparr>)"
    using a by (simp add: set_f77path_def getitem_def)
  show "target_f77path (snd (scan w s n env t)) t = Some []"
    using scan_target[of w s n env t] p by simp
  show "\<forall>e. fst (scan w s n env t) = Inl e \<longrightarrow> get_contents w (rfile w n) = Inl e"
    by (blast intro: scan_error_from_contents)
  assume "node_found_includes s (rfile w n) [] = None \<and> rexists w (rfile w n) \<and>
      fst (get_includes w s (rfile w n)) = Inr incs"
  then show "fst (scan w s n env t) =
          Inr (st (resolved w [get_dir w (rfile w n)] incs) (normalize w))"
    using scan_fresh[of s w n env t incs] p by simp
next
  assume b: "target_f77path s t = Some p"
  then have p: "search_path w s env t = p"
    by (rule search_path_triv)
  show "\<forall>env'. scan w s n env' t = scan w s n env t"
    using scan_env_not_consulted[OF b] by blast
  show "set_f77path w s env t = (Inr (), s)"
    using b by (simp add: set_f77path_def)
  show "target_f77path (snd (scan w s n env t)) t = Some p"
    using scan_target[of w s n env t] p by simp
  assume "node_found_includes s (rfile w n) p = None \<and> rexists w (rfile w n) \<and>
      fst (get_includes w s (rfile w n)) = Inr incs"
  then show "fst (scan w s n env t) =
          Inr (st (resolved w (get_dir w (rfile w n) # p) incs) (normalize w))"
    using scan_fresh[of s w n env t incs] p by simp
qed

theorem missing_F77PATH_gives_empty_path_witness:
  "(Map.empty :: env) ''F77PATH'' = None \<and>
   target_f77path fresh_state ''prog'' = None \<and>
   target_f77path (snd (scan (mock_world files_two) fresh_state ''src/other.f'' Map.empty ''prog''))
     ''prog'' = Some [] \<and>
   node_found_includes fresh_state (rfile (mock_world files_two) ''src/other.f'') [] = None \<and>
   rexists (mock_world files_two) (rfile (mock_world files_two) ''src/other.f'') \<and>
   fst (get_includes (mock_world files_two) fresh_state
          (rfile (mock_world files_two) ''src/other.f'')) = Inr [''x.inc''] \<and>
   fst (scan (mock_world files_two) fresh_state ''src/other.f'' Map.empty ''prog'')
     = Inr (st (resolved (mock_world files_two)
                  [get_dir (mock_world files_two) (rfile (mock_world files_two) ''src/other.f'')]
                  [''x.inc''])
              (normalize (mock_world files_two))) \<and>
   resolved (mock_world files_two)
     [get_dir (mock_world files_two) (rfile (mock_world files_two) ''src/other.f'')] [''x.inc'']
     = [] \<and>
   target_f77path state_with_path ''prog'' = Some [''inc''] \<and>
   scan (mock_world files_two) state_with_path ''src/other.f'' Map.empty ''prog''
     = scan (mock_world files_two) state_with_path ''src/other.f'' env_lib ''prog'' \<and>
   target_f77path
     (snd (scan (mock_world files_two) state_with_path ''src/other.f'' env_lib ''prog''))
     ''prog'' = Some [''inc''] \<and>
   node_found_includes state_with_path (rfile (mock_world files_two) ''src/other.f'') [''inc'']
     = None \<and>
   fst (get_includes (mock_world files_two) state_with_path
          (rfile (mock_world files_two) ''src/other.f'')) = Inr [''x.inc''] \<and>
   fst (scan (mock_world files_two) state_with_path ''src/other.f'' env_lib ''prog'')
     = Inr [''inc/x.inc'']"
proof -
  let ?W = "mock_world files_two"
  have h1: "(Map.empty :: env) ''F77PATH'' = None" by simp
  have h2: "target_f77path fresh_state ''prog'' = None" by (simp add: fresh_state_def)
  have h3: "node_found_includes fresh_state (rfile ?W ''src/other.f'') [] = None"
    by (simp add: fresh_state_def)
  have h4: "rexists ?W (rfile ?W ''src/other.f'')" by code_simp
  have h5: "fst (get_includes ?W fresh_state (rfile ?W ''src/other.f'')) = Inr [''x.inc'']"
    by code_simp
  have h6: "resolved ?W [get_dir ?W (rfile ?W ''src/other.f'')] [''x.inc''] = []"
    by code_simp
  have k1: "target_f77path state_with_path ''prog'' = Some [''inc'']" by code_simp
  have k2: "node_found_includes state_with_path (rfile ?W ''src/other.f'') [''inc''] = None"
    by code_simp
  have k3: "fst (get_includes ?W state_with_path (rfile ?W ''src/other.f'')) = Inr [''x.inc'']"
    by code_simp
  have k4: "st (resolved ?W (get_dir ?W (rfile ?W ''src/other.f'') # [''inc'']) [''x.inc''])
              (normalize ?W) = [''inc/x.inc'']"
    by code_simp
  note a = missing_F77PATH_gives_empty_path
    [of Map.empty fresh_state "''prog''" ?W "''src/other.f''" "[''x.inc'']",
     THEN conjunct1, rule_format, OF conjI[OF h1 h2]]
  note b = missing_F77PATH_gives_empty_path
    [of env_lib state_with_path "''prog''" ?W "''src/other.f''" "[''x.inc'']" "[''inc'']",
     THEN conjunct2, rule_format, OF k1]
  from b k2 h4 k3 k4 have c: "fst (scan ?W state_with_path ''src/other.f'' env_lib ''prog'')
     = Inr [''inc/x.inc'']" by simp
  from b have d: "scan ?W state_with_path ''src/other.f'' Map.empty ''prog''
     = scan ?W state_with_path ''src/other.f'' env_lib ''prog''" by blast
  from a b c d h1 h2 h3 h4 h5 h6 k1 k2 k3 show ?thesis by blast
qed

subsection \<open>C8: include cycles\<close>

text \<open>
  C8 as stated does not hold: what the recursion follows is the result of \<^verbatim>\<open>scan\<close>, not the
  contents. In \<open>files_cycle\<close> the contents of \<^verbatim>\<open>src/a.f\<close> include \<^verbatim>\<open>b.f\<close> and those of
  \<^verbatim>\<open>src/b.f\<close> include \<^verbatim>\<open>a.f\<close>, and each name resolves to the other file. When \<^verbatim>\<open>src/a.f\<close>
  was scanned while it did not exist, the empty list stored then is the result of its
  scan, and the recursive scan returns the empty list, without \<^verbatim>\<open>src/b.f\<close>. Without the
  stored entry both files are found.
\<close>

theorem stale_result_hides_cycle:
  "get_contents (mock_world files_cycle) ''src/a.f'' = Inr ''      INCLUDE 'b.f' '' \<and>
   get_contents (mock_world files_cycle) ''src/b.f'' = Inr ''      INCLUDE 'a.f' '' \<and>
   find_file (mock_world files_cycle) ''b.f'' [''src''] = Some ''src/b.f'' \<and>
   find_file (mock_world files_cycle) ''a.f'' [''src''] = Some ''src/a.f'' \<and>
   \<not> rexists (mock_world files_no_a) ''src/a.f'' \<and>
   node_found_includes state_stale ''src/a.f'' [] = Some [] \<and>
   map_option fst
     (implicit_dependencies 3 (mock_world files_cycle) state_stale ''src/a.f'' Map.empty ''a.o'')
     = Some (Inr []) \<and>
   map_option fst
     (implicit_dependencies 3 (mock_world files_cycle) fresh_state ''src/a.f'' Map.empty ''a.o'')
     = Some (Inr [''src/a.f'', ''src/b.f''])"
  by code_simp

text \<open>
  C8 (amended). Let the scans draw their results from a finite set of nodes and let the
  contents of every existing file be readable. Let \<open>A\<close> and \<open>B\<close> exist and carry neither
  cached raw references nor a cached result for the search path, let the contents of \<open>A\<close>
  hold an INCLUDE line of the form the pattern describes whose name resolves to \<open>B\<close>, and
  those of \<open>B\<close> one whose name resolves to \<open>A\<close>. Then the recursive scan of \<open>A\<close> returns
  with any fuel above the number of nodes: it raises no error, and its result is a list
  without repetitions that contains \<open>B\<close>. The recursion stops where it meets a node it is
  visiting.
\<close>

theorem include_cycle_terminates:
  assumes "finite U"
    and "\<forall>n ds. fst (scan w s n env t) = Inr ds \<longrightarrow> set ds \<subseteq> U"
    and "\<forall>n. rexists w n \<longrightarrow> (\<exists>c. get_contents w n = Inr c)"
    and "rexists w (rfile w A)"
    and "node_found_includes s (rfile w A) (search_path w s env t) = None"
    and "node_includes s (rfile w A) = None"
    and "get_contents w (rfile w A) = Inr (preA @ directive wsA nameA @ postA)"
    and "well_formed wsA nameA"
    and "find_file w nameA (get_dir w (rfile w A) # search_path w s env t) = Some B"
    and "rexists w (rfile w B)"
    and "node_found_includes s (rfile w B) (search_path w s env t) = None"
    and "node_includes s (rfile w B) = None"
    and "get_contents w (rfile w B) = Inr (preB @ directive wsB nameB @ postB)"
    and "well_formed wsB nameB"
    and "find_file w nameB (get_dir w (rfile w B) # search_path w s env t) = Some A"
  shows "\<forall>fuel. card U < fuel \<longrightarrow>
     (\<exists>deps s'. implicit_dependencies fuel w s A env t = Some (Inr deps, s') \<and>
        B \<in> set deps \<and> distinct deps)"
proof (intro allI impI)
  fix fuel
  assume f: "card U < fuel"
  from scan_finds_included[OF assms(4-9)] obtain dsA where
    a: "fst (scan w s A env t) = Inr dsA" "B \<in> set dsA" by blast
  from scan_finds_included[OF assms(10-15)] obtain dsB where
    b: "fst (scan w s B env t) = Inr dsB" "A \<in> set dsB" by blast
  show "\<exists>deps s'. implicit_dependencies fuel w s A env t = Some (Inr deps, s') \<and>
        B \<in> set deps \<and> distinct deps"
    by (rule recursive_scan_returns[OF assms(1-3) a b f])
qed

theorem include_cycle_terminates_witness:
  "finite {''src/a.f'', ''src/b.f''} \<and>
   rexists (mock_world files_cycle) (rfile (mock_world files_cycle) ''src/a.f'') \<and>
   node_includes fresh_state (rfile (mock_world files_cycle) ''src/a.f'') = None \<and>
   get_contents (mock_world files_cycle) (rfile (mock_world files_cycle) ''src/a.f'')
     = Inr (''      '' @ directive '' '' ''b.f'' @ '' '') \<and>
   well_formed '' '' ''b.f'' \<and>
   find_file (mock_world files_cycle) ''b.f''
     (get_dir (mock_world files_cycle) (rfile (mock_world files_cycle) ''src/a.f'') #
      search_path (mock_world files_cycle) fresh_state Map.empty ''a.o'') = Some ''src/b.f'' \<and>
   rexists (mock_world files_cycle) (rfile (mock_world files_cycle) ''src/b.f'') \<and>
   node_includes fresh_state (rfile (mock_world files_cycle) ''src/b.f'') = None \<and>
   get_contents (mock_world files_cycle) (rfile (mock_world files_cycle) ''src/b.f'')
     = Inr (''      '' @ directive '' '' ''a.f'' @ '' '') \<and>
   well_formed '' '' ''a.f'' \<and>
   find_file (mock_world files_cycle) ''a.f''
     (get_dir (mock_world files_cycle) (rfile (mock_world files_cycle) ''src/b.f'') #
      search_path (mock_world files_cycle) fresh_state Map.empty ''a.o'') = Some ''src/a.f'' \<and>
   card {''src/a.f'', ''src/b.f''} < (3::nat) \<and>
   (\<exists>deps s'. implicit_dependencies 3 (mock_world files_cycle) fresh_state ''src/a.f'' Map.empty ''a.o''
        = Some (Inr deps, s') \<and>
      ''src/b.f'' \<in> set deps \<and> distinct deps) \<and>
   map_option fst
     (implicit_dependencies 3 (mock_world files_cycle) fresh_state ''src/a.f'' Map.empty ''a.o'')
     = Some (Inr [''src/a.f'', ''src/b.f''])"
proof -
  let ?W = "mock_world files_cycle"
  let ?U = "{''src/a.f'', ''src/b.f''}"
  have h1: "finite ?U" by simp
  have ex: "exists_file ?W f \<Longrightarrow> f \<in> ?U" for f
    by (auto simp: mock_world_def files_cycle_def split: if_splits)
  have h2: "\<forall>n ds. fst (scan ?W fresh_state n Map.empty ''a.o'') = Inr ds \<longrightarrow> set ds \<subseteq> ?U"
  proof (intro allI impI)
    fix n ds
    assume a: "fst (scan ?W fresh_state n Map.empty ''a.o'') = Inr ds"
    have "node_found_includes fresh_state (rfile ?W n)
            (search_path ?W fresh_state Map.empty ''a.o'') = None"
      by (simp add: fresh_state_def)
    from scan_deps_exist[OF this a] ex show "set ds \<subseteq> ?U" by blast
  qed
  have h3: "\<forall>n. rexists ?W n \<longrightarrow> (\<exists>c. get_contents ?W n = Inr c)"
    by (auto simp: mock_world_def)
  have a1: "rexists ?W (rfile ?W ''src/a.f'')" by code_simp
  have a2: "node_found_includes fresh_state (rfile ?W ''src/a.f'')
      (search_path ?W fresh_state Map.empty ''a.o'') = None"
    by (simp add: fresh_state_def)
  have a3: "node_includes fresh_state (rfile ?W ''src/a.f'') = None"
    by (simp add: fresh_state_def)
  have a4: "get_contents ?W (rfile ?W ''src/a.f'') = Inr (''      '' @ directive '' '' ''b.f'' @ '' '')"
    by code_simp
  have a5: "well_formed '' '' ''b.f''" by code_simp
  have a6: "find_file ?W ''b.f'' (get_dir ?W (rfile ?W ''src/a.f'') #
      search_path ?W fresh_state Map.empty ''a.o'') = Some ''src/b.f''"
    by code_simp
  have b1: "rexists ?W (rfile ?W ''src/b.f'')" by code_simp
  have b2: "node_found_includes fresh_state (rfile ?W ''src/b.f'')
      (search_path ?W fresh_state Map.empty ''a.o'') = None"
    by (simp add: fresh_state_def)
  have b3: "node_includes fresh_state (rfile ?W ''src/b.f'') = None"
    by (simp add: fresh_state_def)
  have b4: "get_contents ?W (rfile ?W ''src/b.f'') = Inr (''      '' @ directive '' '' ''a.f'' @ '' '')"
    by code_simp
  have b5: "well_formed '' '' ''a.f''" by code_simp
  have b6: "find_file ?W ''a.f'' (get_dir ?W (rfile ?W ''src/b.f'') #
      search_path ?W fresh_state Map.empty ''a.o'') = Some ''src/a.f''"
    by code_simp
  have h8: "card ?U < (3::nat)" by simp
  have h9: "map_option fst
     (implicit_dependencies 3 ?W fresh_state ''src/a.f'' Map.empty ''a.o'')
     = Some (Inr [''src/a.f'', ''src/b.f''])"
    by code_simp
  from include_cycle_terminates[OF h1 h2 h3 a1 a2 a3 a4 a5 a6 b1 b2 b3 b4 b5 b6] h8
  have r: "\<exists>deps s'. implicit_dependencies 3 ?W fresh_state ''src/a.f'' Map.empty ''a.o''
        = Some (Inr deps, s') \<and> ''src/b.f'' \<in> set deps \<and> distinct deps"
    by blast
  show ?thesis
    by (intro conjI; fact)
qed

end
